theory Spec2Isabelle
  imports Main "HOL-Library.Word"
begin

section \<open>Typed arrays, the heap and the world\<close>

text \<open>
  The upscaler of \<^verbatim>\<open>src/utils.js\<close> works on \<^verbatim>\<open>Uint8Array\<close> buffers that several
  \<^verbatim>\<open>ndarray\<close> views share, and mutates them in place. The model keeps every typed array
  in a heap (a list of byte lists, the address of a buffer being its position), so that
  two views on one buffer alias here as they do in the program. A byte is an \<open>8 word\<close>.
  Numbers are the program's integers, modelled as \<open>int\<close>: every quantity below is an
  integer far below \<open>2^53\<close>, where the doubles of JavaScript are exact. Where ndarray
  truncates a number to 32 bits (\<^verbatim>\<open>|0\<close>), the model does so too (\<open>to_int32\<close> below):
  a buffer can hold more than \<open>2^31\<close> bytes, and an offset into it need not fit.
\<close>

type_synonym bytes = "8 word list"

type_synonym heap = "bytes list"

datatype js_error = TypeError | RangeError | ExternalError

text \<open>The state the program runs in: the heap and the state of the inference session.\<close>

record 's world =
  mem :: heap
  sess :: 's

definition buffer_at :: "heap \<Rightarrow> nat \<Rightarrow> bytes" where
  "buffer_at h a = (if a < length h then h ! a else [])"

text \<open>Reading a typed array out of range gives \<^verbatim>\<open>undefined\<close> (\<open>None\<close>).\<close>

definition buf_get :: "bytes \<Rightarrow> int \<Rightarrow> 8 word option" where
  "buf_get d n = (if 0 \<le> n \<and> n < int (length d) then Some (d ! nat n) else None)"

text \<open>Storing \<^verbatim>\<open>undefined\<close> into a \<^verbatim>\<open>Uint8Array\<close> stores 0.\<close>

definition to_uint8 :: "8 word option \<Rightarrow> 8 word" where
  "to_uint8 v = (case v of None \<Rightarrow> 0 | Some b \<Rightarrow> b)"

text \<open>Writing a typed array out of range is ignored.\<close>

definition buf_set :: "bytes \<Rightarrow> int \<Rightarrow> 8 word option \<Rightarrow> bytes" where
  "buf_set d n v = (if 0 \<le> n \<and> n < int (length d) then d[nat n := to_uint8 v] else d)"

text \<open>
  \<^verbatim>\<open>new Uint8Array(n)\<close>: a fresh buffer of \<open>n\<close> zero bytes; a negative length raises
  a \<^verbatim>\<open>RangeError\<close>.
\<close>

definition new_Uint8Array :: "int \<Rightarrow> 's world \<Rightarrow> (js_error + nat) \<times> 's world" where
  "new_Uint8Array n w =
     (if n < 0 then (Inl RangeError, w)
      else (Inr (length (mem w)), w\<lparr>mem := mem w @ [replicate (nat n) 0]\<rparr>))"

section \<open>The ndarray views\<close>

text \<open>
  A three-dimensional \<^verbatim>\<open>ndarray\<close> view: the buffer it addresses, its shape, its strides
  and its offset. Element \<open>(i, j, k)\<close> is the byte at
  \<open>offset + stride0 * i + stride1 * j + stride2 * k\<close> of the buffer.
\<close>

record ndarray =
  buf :: nat
  shape0 :: int
  shape1 :: int
  shape2 :: int
  stride0 :: int
  stride1 :: int
  stride2 :: int
  offset :: int

text \<open>
  \<^verbatim>\<open>n|0\<close>, the conversion of an integer to a signed 32-bit integer: the number in
  \<open>[-2^31, 2^31)\<close> that differs from \<open>n\<close> by a multiple of \<open>2^32\<close>. The constructor of
  a view stores its offset as \<^verbatim>\<open>offset|0\<close>, and \<^verbatim>\<open>lo\<close> and \<^verbatim>\<open>hi\<close> convert their
  arguments in this way.
\<close>

definition to_int32 :: "int \<Rightarrow> int" where
  "to_int32 n = (n + 2147483648) mod 4294967296 - 2147483648"

text \<open>
  \<^verbatim>\<open>ndarray(data, [s0, s1, s2])\<close>: row-major strides, offset 0. (The extents are those
  of an image, of a tile or of a tensor, none of them negative; for a negative stride
  ndarray would move the offset.)
\<close>

definition ndarray_new :: "nat \<Rightarrow> int \<times> int \<times> int \<Rightarrow> ndarray" where
  "ndarray_new a s =
     (case s of (s0, s1, s2) \<Rightarrow>
        \<lparr>buf = a, shape0 = s0, shape1 = s1, shape2 = s2,
         stride0 = s1 * s2, stride1 = s2, stride2 = 1, offset = 0\<rparr>)"

text \<open>
  \<^verbatim>\<open>a.lo(i0, i1, i2)\<close> moves the origin: for each argument that is at least 0, with
  \<^verbatim>\<open>d = i|0\<close>, the offset grows by stride times \<open>d\<close> and the shape shrinks by \<open>d\<close>
  (\<^verbatim>\<open>d=i|0; b+=c*d; a-=d\<close>). The new view stores the offset as \<^verbatim>\<open>b|0\<close>.
\<close>

definition lo :: "ndarray \<Rightarrow> int \<Rightarrow> int \<Rightarrow> int \<Rightarrow> ndarray" where
  "lo a i0 i1 i2 =
     a\<lparr>shape0 := (if 0 \<le> i0 then shape0 a - to_int32 i0 else shape0 a),
       shape1 := (if 0 \<le> i1 then shape1 a - to_int32 i1 else shape1 a),
       shape2 := (if 0 \<le> i2 then shape2 a - to_int32 i2 else shape2 a),
       offset := to_int32 (offset a + (if 0 \<le> i0 then stride0 a * to_int32 i0 else 0)
                                    + (if 0 \<le> i1 then stride1 a * to_int32 i1 else 0)
                                    + (if 0 \<le> i2 then stride2 a * to_int32 i2 else 0))\<rparr>"

text \<open>
  \<^verbatim>\<open>a.hi(i0, i1, i2)\<close> sets the shape to its arguments (those that are at least 0),
  converted by \<^verbatim>\<open>i|0\<close>. It does not clip them to the shape the view had. The new view
  stores the offset of the old one, through \<^verbatim>\<open>offset|0\<close> again.
\<close>

definition hi :: "ndarray \<Rightarrow> int \<Rightarrow> int \<Rightarrow> int \<Rightarrow> ndarray" where
  "hi a i0 i1 i2 =
     a\<lparr>shape0 := (if i0 < 0 then shape0 a else to_int32 i0),
       shape1 := (if i1 < 0 then shape1 a else to_int32 i1),
       shape2 := (if i2 < 0 then shape2 a else to_int32 i2),
       offset := to_int32 (offset a)\<rparr>"

text \<open>
  \<^verbatim>\<open>a.pick(p0, p1, p2)\<close> fixes the axes whose argument is a number that is at least 0
  (\<^verbatim>\<open>typeof i === 'number' && i >= 0\<close>) and keeps every other axis whole: an axis
  whose argument is \<^verbatim>\<open>null\<close>, and also one whose argument is an array such as
  \<^verbatim>\<open>[0, 1, 2]\<close>, which is not a number. A fixed axis is dropped from the view; the
  model keeps it with extent 1, which addresses the same elements. For each fixed axis
  in turn the offset \<open>c\<close> becomes \<^verbatim>\<open>(c + stride * i)|0\<close>, and the new view stores
  \<^verbatim>\<open>c|0\<close>.
\<close>

datatype js_arg = Null | Num int | Arr "int list"

definition fixes_axis :: "js_arg \<Rightarrow> bool" where
  "fixes_axis p = (case p of Num i \<Rightarrow> 0 \<le> i | _ \<Rightarrow> False)"

definition fixed_at :: "js_arg \<Rightarrow> int" where
  "fixed_at p = (case p of Num i \<Rightarrow> i | _ \<Rightarrow> 0)"

definition pick :: "ndarray \<Rightarrow> js_arg \<Rightarrow> js_arg \<Rightarrow> js_arg \<Rightarrow> ndarray" where
  "pick a p0 p1 p2 =
     (let c0 = (if fixes_axis p0 then to_int32 (offset a + stride0 a * fixed_at p0) else offset a);
          c1 = (if fixes_axis p1 then to_int32 (c0 + stride1 a * fixed_at p1) else c0);
          c2 = (if fixes_axis p2 then to_int32 (c1 + stride2 a * fixed_at p2) else c1)
      in a\<lparr>shape0 := (if fixes_axis p0 then 1 else shape0 a),
           shape1 := (if fixes_axis p1 then 1 else shape1 a),
           shape2 := (if fixes_axis p2 then 1 else shape2 a),
           offset := to_int32 c2\<rparr>)"

definition nd_index :: "ndarray \<Rightarrow> int \<Rightarrow> int \<Rightarrow> int \<Rightarrow> int" where
  "nd_index a i j k = offset a + stride0 a * i + stride1 a * j + stride2 a * k"

text \<open>\<^verbatim>\<open>a.get(i, j, k)\<close> and \<^verbatim>\<open>a.set(i, j, k, v)\<close> on the buffer the view addresses.\<close>

definition nd_get :: "'s world \<Rightarrow> ndarray \<Rightarrow> int \<Rightarrow> int \<Rightarrow> int \<Rightarrow> 8 word option" where
  "nd_get w a i j k = buf_get (buffer_at (mem w) (buf a)) (nd_index a i j k)"

definition nd_set :: "'s world \<Rightarrow> ndarray \<Rightarrow> int \<Rightarrow> int \<Rightarrow> int \<Rightarrow> 8 word option \<Rightarrow> 's world" where
  "nd_set w a i j k v =
     w\<lparr>mem := (mem w)[buf a := buf_set (buffer_at (mem w) (buf a)) (nd_index a i j k) v]\<rparr>"

text \<open>
  \<^verbatim>\<open>ops.assign(dest, src)\<close> of ndarray-ops: for every index of the shape of \<open>dest\<close>,
  the element of \<open>dest\<close> becomes the element of \<open>src\<close> at the same index. The shapes
  are not compared. The offsets are those that the two views store (\<^verbatim>\<open>lo\<close>, \<^verbatim>\<open>hi\<close>
  and \<^verbatim>\<open>pick\<close> have stored them as signed 32-bit integers).
\<close>

definition assign :: "ndarray \<Rightarrow> ndarray \<Rightarrow> 's world \<Rightarrow> 's world" where
  "assign dest src w =
     fold (\<lambda>i0. fold (\<lambda>i1. fold (\<lambda>i2 w'. nd_set w' dest i0 i1 i2 (nd_get w' src i0 i1 i2))
                                 [0..shape2 dest - 1])
                     [0..shape1 dest - 1])
          [0..shape0 dest - 1] w"

section \<open>The tile grid of one pass\<close>

definition CHUNK_SIZE :: int where
  "CHUNK_SIZE = 1024"

definition PAD_SIZE :: int where
  "PAD_SIZE = 32"

text \<open>\<^verbatim>\<open>Math.ceil(inImg / CHUNK_SIZE)\<close>, lines 75 and 76.\<close>

definition nChunks :: "int \<Rightarrow> int" where
  "nChunks inImg = - ((- inImg) div CHUNK_SIZE)"

text \<open>
  \<^verbatim>\<open>Math.floor(inImg / nChunks)\<close>, lines 77 and 78. For an empty image the program
  divides 0 by 0; no tile is processed then and the value is never read.
\<close>

definition chunkLen :: "int \<Rightarrow> int" where
  "chunkLen inImg = inImg div nChunks inImg"

text \<open>The numbers of lines 83 to 91 for the tile of row \<open>i\<close> and column \<open>j\<close>.\<close>

record tile =
  t_x :: int
  t_y :: int
  t_yStart :: int
  t_inH :: int
  t_outH :: int
  t_xStart :: int
  t_inW :: int
  t_outW :: int

definition tileOf :: "int \<Rightarrow> int \<Rightarrow> int \<Rightarrow> int \<Rightarrow> int \<Rightarrow> int \<Rightarrow> tile" where
  "tileOf inImgW inImgH chunkW chunkH i j =
     (let x = j * chunkW;
          y = i * chunkH;
          yStart = max 0 (y - PAD_SIZE);
          inH = (if yStart + chunkH + PAD_SIZE * 2 > inImgH then inImgH - yStart
                 else chunkH + PAD_SIZE * 2);
          outH = 2 * (min inImgH (y + chunkH) - y);
          xStart = max 0 (x - PAD_SIZE);
          inW = (if xStart + chunkW + PAD_SIZE * 2 > inImgW then inImgW - xStart
                 else chunkW + PAD_SIZE * 2);
          outW = 2 * (min inImgW (x + chunkW) - x)
      in \<lparr>t_x = x, t_y = y, t_yStart = yStart, t_inH = inH, t_outH = outH,
          t_xStart = xStart, t_inW = inW, t_outW = outW\<rparr>)"

text \<open>
  The tile of the grid of a \<open>W \<times> H\<close> image, and the rectangle of the output canvas it is
  written to (its \<^verbatim>\<open>outSlice\<close>, line 100).
\<close>

definition gridTile :: "int \<Rightarrow> int \<Rightarrow> int \<Rightarrow> int \<Rightarrow> tile" where
  "gridTile W H i j = tileOf W H (chunkLen W) (chunkLen H) i j"

definition in_outputRegion :: "tile \<Rightarrow> int \<Rightarrow> int \<Rightarrow> bool" where
  "in_outputRegion t px py =
     (t_x t * 2 \<le> px \<and> px < t_x t * 2 + t_outW t \<and> t_y t * 2 \<le> py \<and> py < t_y t * 2 + t_outH t)"

section \<open>The inference session\<close>

text \<open>
  An \<^verbatim>\<open>ort.Tensor\<close>: the address of its data and its dimensions. The session is
  outside the repository; it is a parameter \<open>run\<close> of the model. From its own state and
  the bytes and dimensions of the tensor it is fed, it either throws (\<open>Inl\<close>) or returns
  an object whose \<^verbatim>\<open>output\<close> property is missing (\<open>None\<close>) or is a tensor, given by
  its bytes and its dimensions, and it moves to a new state. It does not write the
  buffers of the program; the data of the tensor it returns is a new buffer.
\<close>

record tensor =
  data_at :: nat
  dims :: "int \<times> int \<times> int"

type_synonym tensor_val = "bytes \<times> (int \<times> int \<times> int)"

type_synonym 's session = "'s \<Rightarrow> tensor_val \<Rightarrow> (unit + tensor_val option) \<times> 's"

text \<open>
  \<^verbatim>\<open>prepareImage(imageArray, 'superRes')\<close>, the branch that \<^verbatim>\<open>runSuperRes\<close> takes:
  a tensor on the data of the array with dimensions \<open>[width, height, 4]\<close>. Its one
  caller passes the contiguous copy of a chunk, whose data holds \<open>width * height * 4\<close>
  bytes.
\<close>

definition prepareImage :: "ndarray \<Rightarrow> tensor" where
  "prepareImage imageArray =
     (let width = shape0 imageArray;
          height = shape1 imageArray
      in \<lparr>data_at = buf imageArray, dims = (width, height, 4)\<rparr>)"

text \<open>
  \<^verbatim>\<open>runSuperRes\<close>, lines 53 to 65: an exception of the session is caught and logged, and
  \<^verbatim>\<open>sr\<close> stays \<^verbatim>\<open>undefined\<close> (\<open>None\<close>).
\<close>

definition runSuperRes :: "'s session \<Rightarrow> ndarray \<Rightarrow> 's world \<Rightarrow> tensor option \<times> 's world" where
  "runSuperRes run imageArray w =
     (let feeds = prepareImage imageArray
      in case run (sess w) (buffer_at (mem w) (data_at feeds), dims feeds) of
           (Inl e, s') \<Rightarrow> (None, w\<lparr>sess := s'\<rparr>)
         | (Inr None, s') \<Rightarrow> (None, w\<lparr>sess := s'\<rparr>)
         | (Inr (Some (d, ds)), s') \<Rightarrow>
             (Some \<lparr>data_at = length (mem w), dims = ds\<rparr>, w\<lparr>mem := mem w @ [d], sess := s'\<rparr>))"

section \<open>One pass: \<^verbatim>\<open>upscaleFrame\<close>\<close>

text \<open>\<^verbatim>\<open>processAlphaChannel\<close>, lines 116 to 129.\<close>

definition processAlphaChannel :: "ndarray \<Rightarrow> ndarray \<Rightarrow> 's world \<Rightarrow> 's world" where
  "processAlphaChannel inputArray outputArray w =
     (let outW = shape0 outputArray;
          outH = shape1 outputArray
      in fold (\<lambda>y. fold (\<lambda>x w'.
                 let inX = x div 2;
                     inY = y div 2
                 in nd_set w' outputArray x y 3 (nd_get w' inputArray inX inY 3))
               [0..outW - 1])
           [0..outH - 1] w)"

text \<open>
  A \<^verbatim>\<open>for (let s = i; s < n; s += 1)\<close> loop whose body may throw: the loop stops at the
  first exception.
\<close>

function for_loop ::
  "int \<Rightarrow> int \<Rightarrow> (int \<Rightarrow> 'a \<Rightarrow> 'w \<Rightarrow> (js_error + 'a) \<times> 'w) \<Rightarrow> 'a \<Rightarrow> 'w \<Rightarrow> (js_error + 'a) \<times> 'w"
where
  "for_loop s n body acc w =
     (if s < n then
        (case body s acc w of
           (Inl e, w') \<Rightarrow> (Inl e, w')
         | (Inr acc', w') \<Rightarrow> for_loop (s + 1) n body acc' w')
      else (Inr acc, w))"
  by pat_completeness auto
termination
  by (relation "measure (\<lambda>(s, n, body, acc, w). nat (n - s))") auto

text \<open>
  Lines 93 to 95: the padded input region of the tile as a view \<^verbatim>\<open>inSlice\<close> on the
  image, and its copy \<^verbatim>\<open>subArr\<close> in a new buffer.
\<close>

definition extractChunk ::
  "ndarray \<Rightarrow> tile \<Rightarrow> 's world \<Rightarrow> (js_error + ndarray \<times> ndarray) \<times> 's world" where
  "extractChunk imageArray t w =
     (let inSlice = hi (lo imageArray (t_xStart t) (t_yStart t) 0) (t_inW t) (t_inH t) 4
      in case new_Uint8Array (t_inW t * t_inH t * 4) w of
           (Inl e, w1) \<Rightarrow> (Inl e, w1)
         | (Inr a, w1) \<Rightarrow>
             let subArr = ndarray_new a (shape0 inSlice, shape1 inSlice, shape2 inSlice)
             in (Inr (inSlice, subArr), assign subArr inSlice w1))"

text \<open>The view \<^verbatim>\<open>outSlice\<close> of line 100.\<close>

definition outSliceOf :: "ndarray \<Rightarrow> tile \<Rightarrow> ndarray" where
  "outSliceOf outArr t = hi (lo outArr (t_x t * 2) (t_y t * 2) 0) (t_outW t) (t_outH t) 4"

text \<open>
  Lines 98 to 103: the result of the inference is cropped and assigned to the canvas
  (``Copy RGB channels'').
\<close>

definition stitchChunk :: "tensor \<Rightarrow> ndarray \<Rightarrow> tile \<Rightarrow> 's world \<Rightarrow> 's world" where
  "stitchChunk chunkData outArr t w =
     (let chunkArr = ndarray_new (data_at chunkData) (dims chunkData);
          chunkSlice = hi (lo chunkArr ((t_x t - t_xStart t) * 2) ((t_y t - t_yStart t) * 2) 0)
                          (t_outW t) (t_outH t) 4;
          outSlice = outSliceOf outArr t
      in assign (pick outSlice Null Null (Arr [0, 1, 2]))
                (pick chunkSlice Null Null (Arr [0, 1, 2])) w)"

text \<open>
  The body of the two loops, lines 83 to 109. Reading \<^verbatim>\<open>chunkData.data\<close> when
  \<^verbatim>\<open>runSuperRes\<close> returned \<^verbatim>\<open>undefined\<close> raises a \<^verbatim>\<open>TypeError\<close>.
\<close>

definition upscaleFrame_tile ::
  "'s session \<Rightarrow> ndarray \<Rightarrow> ndarray \<Rightarrow> int \<Rightarrow> int \<Rightarrow> int \<Rightarrow> int \<Rightarrow> 's world
     \<Rightarrow> (js_error + unit) \<times> 's world" where
  "upscaleFrame_tile run imageArray outArr chunkW chunkH i j w =
     (let t = tileOf (shape0 imageArray) (shape1 imageArray) chunkW chunkH i j
      in case extractChunk imageArray t w of
           (Inl e, w1) \<Rightarrow> (Inl e, w1)
         | (Inr (inSlice, subArr), w1) \<Rightarrow>
             (case runSuperRes run subArr w1 of
                (None, w2) \<Rightarrow> (Inl TypeError, w2)
              | (Some chunkData, w2) \<Rightarrow>
                  (Inr (),
                   processAlphaChannel
                     (hi (lo inSlice (t_x t - t_xStart t) (t_y t - t_yStart t) 0)
                         (t_outW t div 2) (t_outH t div 2) 4)
                     (outSliceOf outArr t)
                     (stitchChunk chunkData outArr t w2))))"

definition upscaleFrame ::
  "'s session \<Rightarrow> ndarray \<Rightarrow> 's world \<Rightarrow> (js_error + ndarray) \<times> 's world" where
  "upscaleFrame run imageArray w =
     (let inImgW = shape0 imageArray;
          inImgH = shape1 imageArray;
          outImgW = inImgW * 2;
          outImgH = inImgH * 2;
          nChunksW = nChunks inImgW;
          nChunksH = nChunks inImgH;
          chunkW = chunkLen inImgW;
          chunkH = chunkLen inImgH
      in case new_Uint8Array (outImgW * outImgH * 4) w of
           (Inl e, w1) \<Rightarrow> (Inl e, w1)
         | (Inr a, w1) \<Rightarrow>
             let outArr = ndarray_new a (outImgW, outImgH, 4)
             in case for_loop 0 nChunksH
                       (\<lambda>i u. for_loop 0 nChunksW
                                 (\<lambda>j u'. upscaleFrame_tile run imageArray outArr chunkW chunkH i j)
                                 u)
                       () w1 of
                  (Inl e, w2) \<Rightarrow> (Inl e, w2)
                | (Inr u, w2) \<Rightarrow> (Inr outArr, w2))"

section \<open>Several passes: \<^verbatim>\<open>multiUpscale\<close>\<close>

definition multiUpscale ::
  "'s session \<Rightarrow> ndarray \<Rightarrow> nat \<Rightarrow> 's world \<Rightarrow> (js_error + ndarray) \<times> 's world" where
  "multiUpscale run imageArray upscaleFactor w =
     for_loop 0 (int upscaleFactor) (\<lambda>s outArr. upscaleFrame run outArr) imageArray w"

section \<open>The driver: \<^verbatim>\<open>processImage\<close> and \<^verbatim>\<open>processBulkImages\<close>\<close>






section \<open>Notions of the specification\<close>

text \<open>
  An image as \<^verbatim>\<open>processImage\<close> builds it from RGBA data: a \<open>W \<times> H \<times> 4\<close> array with
  row-major strides on a buffer of \<open>W * H * 4\<close> bytes that is in the heap.
\<close>

definition rgba_image :: "'s world \<Rightarrow> ndarray \<Rightarrow> bool" where
  "rgba_image w a =
     (buf a < length (mem w) \<and> 1 \<le> shape0 a \<and> 1 \<le> shape1 a \<and> shape2 a = 4 \<and>
      stride0 a = shape1 a * 4 \<and> stride1 a = 4 \<and> stride2 a = 1 \<and> offset a = 0 \<and>
      int (length (mem w ! buf a)) = shape0 a * shape1 a * 4)"

text \<open>
  The bytes of a view in row-major order, as a contiguous copy of the view holds them
  (the ChunkBuffer of the specification).
\<close>

definition region_bytes :: "bytes \<Rightarrow> ndarray \<Rightarrow> bytes" where
  "region_bytes d v =
     map (\<lambda>n. to_uint8 (buf_get d (nd_index v (int n div (shape1 v * shape2 v))
                                              (int n div shape2 v mod shape1 v)
                                              (int n mod shape2 v))))
         [0..<nat (shape0 v * shape1 v * shape2 v)]"

text \<open>The padded input region of tile \<open>(i, j)\<close> of an image, as a view on the image.\<close>

definition inputRegion :: "ndarray \<Rightarrow> int \<Rightarrow> int \<Rightarrow> ndarray" where
  "inputRegion imageArray i j =
     (let t = gridTile (shape0 imageArray) (shape1 imageArray) i j
      in hi (lo imageArray (t_xStart t) (t_yStart t) 0) (t_inW t) (t_inH t) 4)"

text \<open>
  Modelled from the spec: the identity-doubling test stub for the inference operation,
  which is not in the repository. Each pixel of the submitted \<open>(w, h, c)\<close> chunk is
  replicated into a \<open>2 \<times> 2\<close> block of the returned \<open>(2w, 2h, c)\<close> buffer.
\<close>

definition identity_doubling :: "tensor_val \<Rightarrow> tensor_val" where
  "identity_doubling t =
     (case t of (d, (w, h, c)) \<Rightarrow>
        (map (\<lambda>n. let i = int n div (2 * h * c);
                      j = int n div c mod (2 * h);
                      k = int n mod c
                  in to_uint8 (buf_get d ((i div 2 * h + j div 2) * c + k)))
             [0..<nat (2 * w * (2 * h) * c)],
         (2 * w, 2 * h, c)))"

text \<open>
  The canvas of a pass over a \<open>W \<times> H\<close> image holds at most \<open>2^31\<close> bytes (2 GiB), so
  that the offset of every view on it, and on the image, is a signed 32-bit integer as it
  stands.
\<close>

definition canvas_fits :: "int \<Rightarrow> int \<Rightarrow> bool" where
  "canvas_fits W H = (W * 2 * (H * 2) * 4 \<le> 2147483648)"

text \<open>The part of the canvas that the tiles of the grid are written to.\<close>

definition covered :: "int \<Rightarrow> int \<Rightarrow> int \<Rightarrow> int \<Rightarrow> bool" where
  "covered W H px py =
     (0 \<le> px \<and> px < 2 * (nChunks W * chunkLen W) \<and> 0 \<le> py \<and> py < 2 * (nChunks H * chunkLen H))"

text \<open>
  The byte of an inference result \<open>r\<close> (its bytes and its dimensions) that the crop of
  line 99 puts at position \<open>(px, py, c)\<close> of the canvas, as the assignment of line 103
  stores it.
\<close>

definition stitched_value :: "tensor_val \<Rightarrow> tile \<Rightarrow> int \<Rightarrow> int \<Rightarrow> int \<Rightarrow> 8 word" where
  "stitched_value r t px py c =
     (case r of (cd, ds) \<Rightarrow>
        to_uint8 (buf_get cd
          (nd_index (hi (lo (ndarray_new 0 ds) ((t_x t - t_xStart t) * 2) ((t_y t - t_yStart t) * 2) 0)
                        (t_outW t) (t_outH t) 4)
             (px - t_x t * 2) (py - t_y t * 2) c)))"

text \<open>The byte of the canvas at \<open>(px, py, c)\<close>, and of an image likewise.\<close>

definition pixel :: "'s world \<Rightarrow> ndarray \<Rightarrow> int \<Rightarrow> int \<Rightarrow> int \<Rightarrow> 8 word" where
  "pixel w a px py c = to_uint8 (nd_get w a px py c)"

text \<open>
  The canvas of a pass over an image, as line 80 allocates it: a
  \<open>2W \<times> 2H \<times> 4\<close> array on a buffer of its own.
\<close>

definition canvas_for :: "'s world \<Rightarrow> ndarray \<Rightarrow> ndarray \<Rightarrow> bool" where
  "canvas_for w imageArray outArr =
     (outArr = ndarray_new (buf outArr) (shape0 imageArray * 2, shape1 imageArray * 2, 4) \<and>
      buf outArr < length (mem w) \<and> buf outArr \<noteq> buf imageArray \<and>
      int (length (mem w ! buf outArr)) = shape0 imageArray * 2 * (shape1 imageArray * 2) * 4)"

text \<open>
  The tensor that tile \<open>(i, j)\<close> of an image with bytes \<open>d\<close> submits to the inference:
  the bytes of its padded input region and the dimensions \<open>(inW, inH, 4)\<close>.
\<close>

definition tile_chunk :: "bytes \<Rightarrow> ndarray \<Rightarrow> int \<Rightarrow> int \<Rightarrow> tensor_val" where
  "tile_chunk d imageArray i j =
     (let t = gridTile (shape0 imageArray) (shape1 imageArray) i j
      in (region_bytes d (inputRegion imageArray i j), (t_inW t, t_inH t, 4)))"

text \<open>
  The part of the canvas that the tiles before tile \<open>(i, m)\<close> are written to, in the
  order of the two loops: the rows of tiles before row \<open>i\<close>, and the tiles of row \<open>i\<close>
  before column \<open>m\<close>.
\<close>

definition tiles_done :: "int \<Rightarrow> int \<Rightarrow> int \<Rightarrow> int \<Rightarrow> int \<Rightarrow> int \<Rightarrow> bool" where
  "tiles_done W H i m px py =
     (0 \<le> px \<and> 0 \<le> py \<and>
      (py < i * chunkLen H * 2 \<and> px < nChunks W * chunkLen W * 2 \<or>
       i * chunkLen H * 2 \<le> py \<and> py < (i + 1) * chunkLen H * 2 \<and> px < m * chunkLen W * 2))"

text \<open>An outcome of the session that leaves \<^verbatim>\<open>runSuperRes\<close> with \<^verbatim>\<open>undefined\<close>.\<close>

definition no_result :: "unit + tensor_val option \<Rightarrow> bool" where
  "no_result x = (case x of Inl e \<Rightarrow> True | Inr None \<Rightarrow> True | Inr (Some r) \<Rightarrow> False)"

text \<open>
  In some state the session returns a result for the chunk of tile \<open>(i, j)\<close> of an image
  with bytes \<open>d\<close>; in some state it returns none.
\<close>

definition tile_ok :: "'s session \<Rightarrow> bytes \<Rightarrow> ndarray \<Rightarrow> int \<Rightarrow> int \<Rightarrow> bool" where
  "tile_ok run d imageArray i j =
     (\<exists>s0 r s1. run s0 (tile_chunk d imageArray i j) = (Inr (Some r), s1))"

definition tile_fails :: "'s session \<Rightarrow> bytes \<Rightarrow> ndarray \<Rightarrow> int \<Rightarrow> int \<Rightarrow> bool" where
  "tile_fails run d imageArray i j =
     (\<exists>s0 x s1. run s0 (tile_chunk d imageArray i j) = (x, s1) \<and> no_result x)"

text \<open>
  The exception that a pass over an image can end with: a \<^verbatim>\<open>TypeError\<close>, after the
  session returned no result for the chunk of some tile of the grid.
\<close>

definition pass_error :: "'s session \<Rightarrow> bytes \<Rightarrow> ndarray \<Rightarrow> js_error \<Rightarrow> bool" where
  "pass_error run d imageArray e =
     (e = TypeError \<and>
      (\<exists>i j. 0 \<le> i \<and> i < nChunks (shape1 imageArray) \<and> 0 \<le> j \<and> j < nChunks (shape0 imageArray) \<and>
             tile_fails run d imageArray i j))"

text \<open>
  The invariant of the two loops of a pass that started in the state \<open>w0\<close>, before tile
  \<open>(i, m)\<close>: the image and every buffer of \<open>w0\<close> are as they were, the canvas is a
  buffer allocated since; when the canvas fits, on the part of it that the tiles before
  \<open>(i, m)\<close> were written to every byte satisfies \<open>P\<close>, elsewhere every byte is 0; and
  the session returned a result for each of these tiles.
\<close>

definition pass_inv ::
  "'s session \<Rightarrow> 's world \<Rightarrow> ndarray \<Rightarrow> ndarray \<Rightarrow> (int \<Rightarrow> int \<Rightarrow> int \<Rightarrow> 8 word \<Rightarrow> bool)
     \<Rightarrow> int \<Rightarrow> int \<Rightarrow> 's world \<Rightarrow> bool" where
  "pass_inv run w0 imageArray outArr P i m v =
     (rgba_image v imageArray \<and> canvas_for v imageArray outArr \<and>
      buf outArr = length (mem w0) \<and> buf imageArray < length (mem w0) \<and>
      (\<forall>a<length (mem w0). mem v ! a = mem w0 ! a) \<and>
      (canvas_fits (shape0 imageArray) (shape1 imageArray) \<longrightarrow>
       (\<forall>px py c. 0 \<le> px \<and> px < shape0 imageArray * 2 \<and> 0 \<le> py \<and> py < shape1 imageArray * 2 \<and>
                   0 \<le> c \<and> c < 4 \<longrightarrow>
          (if tiles_done (shape0 imageArray) (shape1 imageArray) i m px py
           then P px py c (mem v ! buf outArr ! nat ((px * (shape1 imageArray * 2) + py) * 4 + c))
           else mem v ! buf outArr ! nat ((px * (shape1 imageArray * 2) + py) * 4 + c) = 0))) \<and>
      (\<forall>i' j'. 0 \<le> i' \<and> 0 \<le> j' \<and> j' < nChunks (shape0 imageArray) \<and> (i' < i \<or> i' = i \<and> j' < m) \<longrightarrow>
         tile_ok run (mem w0 ! buf imageArray) imageArray i' j'))"

text \<open>
  What \<open>P\<close> has to satisfy for that: it holds for the bytes that a tile writes to its
  output region, the alpha of the source for channel 3 and the crop of the result of
  the inference for the others.
\<close>

definition tile_establishes ::
  "'s session \<Rightarrow> 's world \<Rightarrow> ndarray \<Rightarrow> (int \<Rightarrow> int \<Rightarrow> int \<Rightarrow> 8 word \<Rightarrow> bool) \<Rightarrow> bool" where
  "tile_establishes run w0 imageArray P =
     (\<forall>i j s0 r s1 px py c.
        0 \<le> i \<and> i < nChunks (shape1 imageArray) \<and> 0 \<le> j \<and> j < nChunks (shape0 imageArray) \<and>
        run s0 (tile_chunk (mem w0 ! buf imageArray) imageArray i j) = (Inr (Some r), s1) \<and>
        in_outputRegion (gridTile (shape0 imageArray) (shape1 imageArray) i j) px py \<and>
        0 \<le> c \<and> c < 4 \<longrightarrow>
        P px py c (if c = 3 then pixel w0 imageArray (px div 2) (py div 2) 3
                   else stitched_value r (gridTile (shape0 imageArray) (shape1 imageArray) i j) px py c))"

text \<open>
  Three sessions without a state of their own, for the examples: one that throws on every
  call, one that is the identity-doubling stub, and one that returns a buffer of shape
  \<open>(1, 1, 4)\<close> whatever the chunk it is given.
\<close>

definition failing_session :: "unit session" where
  "failing_session s t = (Inl (), s)"

definition doubling_session :: "unit session" where
  "doubling_session s t = (Inr (Some (identity_doubling t)), s)"

definition misshapen_session :: "unit session" where
  "misshapen_session s t = (Inr (Some ([7, 7, 7, 9], (1, 1, 4))), s)"



text \<open>
  A session for the examples whose state counts the calls made: its second call throws,
  every other call is the identity-doubling stub.
\<close>

definition second_call_fails :: "int session" where
  "second_call_fails s t =
     (if s = 1 then (Inl (), 2) else (Inr (Some (identity_doubling t)), s + 1))"

text \<open>
  Any session run with a record of its failures: the state is paired with a flag that is
  set by every call that returns no result, and never cleared. \<open>plain\<close> forgets the
  flag.
\<close>

definition recording :: "'s session \<Rightarrow> ('s \<times> bool) session" where
  "recording run s t = (case run (fst s) t of (x, s') \<Rightarrow> (x, (s', snd s \<or> no_result x)))"

definition plain :: "('s \<times> bool) world \<Rightarrow> 's world" where
  "plain w = \<lparr>mem = mem w, sess = fst (sess w)\<rparr>"



section \<open>Geometry of the grid\<close>

lemma nChunks_pos: "1 \<le> W \<Longrightarrow> 1 \<le> nChunks W"
  unfolding nChunks_def CHUNK_SIZE_def by linarith

lemma nChunks_le: "1 \<le> W \<Longrightarrow> nChunks W \<le> W"
  unfolding nChunks_def CHUNK_SIZE_def by linarith

lemma chunkLen_pos: "1 \<le> W \<Longrightarrow> 1 \<le> chunkLen W"
proof -
  assume W: "1 \<le> W"
  have "nChunks W \<le> W" "0 < nChunks W" using nChunks_le [OF W] nChunks_pos [OF W] by simp_all
  then have "1 \<le> W div nChunks W"
    using zdiv_mono1 [of "nChunks W" W "nChunks W"] by simp
  then show ?thesis by (simp add: chunkLen_def)
qed

lemma grid_within: "1 \<le> W \<Longrightarrow> nChunks W * chunkLen W \<le> W"
proof -
  assume W: "1 \<le> W"
  have "0 < nChunks W" using nChunks_pos [OF W] by simp
  then have "nChunks W * (W div nChunks W) \<le> W"
    using mult_div_mod_eq [of "nChunks W" W] pos_mod_sign [of "nChunks W" W] by linarith
  then show ?thesis by (simp add: chunkLen_def)
qed

lemma chunkLen_le: "1 \<le> W \<Longrightarrow> chunkLen W \<le> 1024"
proof -
  assume W: "1 \<le> W"
  have n: "0 < nChunks W" using nChunks_pos [OF W] by simp
  have "W \<le> 1024 * nChunks W" unfolding nChunks_def CHUNK_SIZE_def by linarith
  then have "W div nChunks W \<le> 1024 * nChunks W div nChunks W"
    using n by (intro zdiv_mono1) simp_all
  then show ?thesis using n by (simp add: chunkLen_def)
qed

lemma tile_end_within:
  assumes "1 \<le> W" "0 \<le> j" "j < nChunks W"
  shows "j * chunkLen W + chunkLen W \<le> W"
proof -
  have c: "0 \<le> chunkLen W" using chunkLen_pos [OF assms(1)] by simp
  have "(j + 1) * chunkLen W \<le> nChunks W * chunkLen W"
    using assms(3) c by (intro mult_right_mono) simp_all
  then show ?thesis using grid_within [OF assms(1)] by (simp add: algebra_simps)
qed

lemma tile_pos_nonneg:
  assumes "1 \<le> W" "0 \<le> j"
  shows "0 \<le> j * chunkLen W"
  using assms chunkLen_pos [OF assms(1)] by simp

text \<open>The fields of a tile of the grid, in closed form.\<close>

lemma gridTile_fields:
  assumes W: "1 \<le> W" and H: "1 \<le> H"
    and i: "0 \<le> i" "i < nChunks H" and j: "0 \<le> j" "j < nChunks W"
  shows "t_x (gridTile W H i j) = j * chunkLen W"
    and "t_y (gridTile W H i j) = i * chunkLen H"
    and "t_outW (gridTile W H i j) = 2 * chunkLen W"
    and "t_outH (gridTile W H i j) = 2 * chunkLen H"
    and "t_xStart (gridTile W H i j) = max 0 (j * chunkLen W - 32)"
    and "t_yStart (gridTile W H i j) = max 0 (i * chunkLen H - 32)"
    and "t_inW (gridTile W H i j) = min (W - max 0 (j * chunkLen W - 32)) (chunkLen W + 64)"
    and "t_inH (gridTile W H i j) = min (H - max 0 (i * chunkLen H - 32)) (chunkLen H + 64)"
  using tile_end_within [OF W j] tile_end_within [OF H i]
  by (simp_all add: gridTile_def tileOf_def Let_def PAD_SIZE_def min_def)

lemma tile_bounds:
  assumes W: "1 \<le> W" and H: "1 \<le> H"
    and i: "0 \<le> i" "i < nChunks H" and j: "0 \<le> j" "j < nChunks W"
  defines "t \<equiv> gridTile W H i j"
  shows "0 \<le> t_xStart t" and "t_xStart t \<le> t_x t" and "t_x t - t_xStart t \<le> 32"
    and "t_xStart t + t_inW t \<le> W"
    and "t_x t - t_xStart t + t_outW t div 2 \<le> t_inW t"
    and "0 \<le> t_yStart t" and "t_yStart t \<le> t_y t" and "t_y t - t_yStart t \<le> 32"
    and "t_yStart t + t_inH t \<le> H"
    and "t_y t - t_yStart t + t_outH t div 2 \<le> t_inH t"
    and "0 < t_outW t" and "0 < t_outH t"
    and "t_x t * 2 + t_outW t \<le> 2 * W" and "t_y t * 2 + t_outH t \<le> 2 * H"
    and "0 \<le> t_x t" and "0 \<le> t_y t"
  using tile_end_within [OF W j] tile_end_within [OF H i] chunkLen_pos [OF W] chunkLen_pos [OF H]
    tile_pos_nonneg [OF W j(1)] tile_pos_nonneg [OF H i(1)]
  unfolding t_def gridTile_fields [OF assms(1-6)]
  by (simp_all add: min_def max_def)

text \<open>
  The extents of a tile are small whatever the size of the image: a chunk is at most
  \<open>CHUNK_SIZE\<close> wide and high, and its padded input region at most
  \<open>CHUNK_SIZE + 2 * PAD_SIZE\<close>.
\<close>

lemma tile_extents_small:
  assumes W: "1 \<le> W" and H: "1 \<le> H"
    and i: "0 \<le> i" "i < nChunks H" and j: "0 \<le> j" "j < nChunks W"
  defines "t \<equiv> gridTile W H i j"
  shows "t_inW t \<le> 1088" and "t_inH t \<le> 1088" and "t_outW t \<le> 2048" and "t_outH t \<le> 2048"
  using chunkLen_le [OF W] chunkLen_le [OF H]
  unfolding t_def gridTile_fields [OF assms(1-6)]
  by (simp_all add: min_def)

section \<open>Loops of writes into one buffer\<close>

lemma buf_set_length [simp]: "length (buf_set d n v) = length d"
  by (simp add: buf_set_def)

lemma fold_buf_set_length [simp]:
  "length (fold (\<lambda>k d. buf_set d (f k) (g k)) ks d) = length d"
  by (induction ks arbitrary: d) simp_all

lemma fold_buf_set_other:
  "\<forall>k\<in>set ks. f k \<noteq> int n \<Longrightarrow> fold (\<lambda>k d. buf_set d (f k) (g k)) ks d ! n = d ! n"
proof (induction ks arbitrary: d)
  case Nil
  then show ?case by simp
next
  case (Cons k ks)
  have "buf_set d (f k) (g k) ! n = d ! n"
    using Cons.prems by (auto simp: buf_set_def)
  then show ?case using Cons by simp
qed

lemma fold_buf_set_hit:
  assumes "k \<in> set ks" and "\<forall>k'\<in>set ks. f k' = f k \<longrightarrow> g k' = g k"
    and "0 \<le> f k" and "f k < int (length d)"
  shows "fold (\<lambda>k d. buf_set d (f k) (g k)) ks d ! nat (f k) = to_uint8 (g k)"
  using assms(1,2)
proof (induction ks rule: rev_induct)
  case Nil
  then show ?case by simp
next
  case (snoc k' ks)
  let ?d = "fold (\<lambda>k d. buf_set d (f k) (g k)) ks d"
  have len: "length ?d = length d" by simp
  have step: "fold (\<lambda>k d. buf_set d (f k) (g k)) (ks @ [k']) d = buf_set ?d (f k') (g k')"
    by simp
  show ?case
  proof (cases "f k' = f k")
    case True
    then have "g k' = g k" using snoc.prems(2) by simp
    then show ?thesis
      unfolding step using True assms(3,4) len by (simp add: buf_set_def)
  next
    case False
    then have in_ks: "k \<in> set ks" using snoc.prems(1) by auto
    have "\<forall>k'\<in>set ks. f k' = f k \<longrightarrow> g k' = g k" using snoc.prems(2) by simp
    with in_ks have IH: "?d ! nat (f k) = to_uint8 (g k)" by (rule snoc.IH)
    have "f k' < 0 \<or> nat (f k') \<noteq> nat (f k)"
      using False assms(3) by linarith
    then show ?thesis
      unfolding step using IH by (auto simp: buf_set_def)
  qed
qed

section \<open>Loops of copies between two buffers of the heap\<close>

lemma fold_product:
  "fold (\<lambda>a. fold (F a) ys) xs = fold (\<lambda>(a, b). F a b) (List.product xs ys)"
  by (induction xs) (simp_all add: fold_map comp_def)

lemma fold_copy_heap:
  assumes "bd \<noteq> bs" and "bd < length (mem w)"
  shows "fold (\<lambda>k w'. w'\<lparr>mem := (mem w')[bd := buf_set (buffer_at (mem w') bd) (fd k)
                                        (buf_get (buffer_at (mem w') bs) (fs k))]\<rparr>) ks w
       = w\<lparr>mem := (mem w)[bd := fold (\<lambda>k d. buf_set d (fd k)
                                        (buf_get (buffer_at (mem w) bs) (fs k))) ks (mem w ! bd)]\<rparr>"
  using assms
proof (induction ks arbitrary: w)
  case Nil
  then show ?case by simp
next
  case (Cons k ks)
  let ?d1 = "buf_set (mem w ! bd) (fd k) (buf_get (buffer_at (mem w) bs) (fs k))"
  let ?w1 = "w\<lparr>mem := (mem w)[bd := ?d1]\<rparr>"
  have bs: "buffer_at (mem ?w1) bs = buffer_at (mem w) bs"
    using Cons.prems by (simp add: buffer_at_def)
  have bd: "mem ?w1 ! bd = ?d1" using Cons.prems by simp
  have "bd < length (mem ?w1)" using Cons.prems by simp
  from Cons.IH [OF Cons.prems(1) this] show ?case
    using Cons.prems by (simp add: bs buffer_at_def)
qed

section \<open>Row-major indices\<close>

lemma row_major_bounds:
  assumes "0 \<le> px" "px < W" "0 \<le> py" "py < H" "0 \<le> c" "c < (4::int)"
  shows "0 \<le> (px * H + py) * 4 + c" and "(px * H + py) * 4 + c < W * H * 4"
proof -
  define A where "A = px * H"
  define B where "B = W * H"
  have H: "0 < H" using assms by linarith
  have A: "0 \<le> A" unfolding A_def using assms(1) H by simp
  have "(px + 1) * H \<le> W * H"
    using assms(2) H by (intro mult_right_mono) simp_all
  then have B: "A + H \<le> B" by (simp add: algebra_simps A_def B_def)
  show "0 \<le> (px * H + py) * 4 + c"
    unfolding A_def [symmetric] using A assms by (simp add: algebra_simps)
  show "(px * H + py) * 4 + c < W * H * 4"
    unfolding A_def [symmetric] B_def [symmetric] using B assms by (simp add: algebra_simps)
qed

lemma row_major_inj:
  assumes "0 \<le> py" "py < H" "0 \<le> py'" "py' < H" "0 \<le> c" "c < (4::int)" "0 \<le> c'" "c' < 4"
    and eq: "(px * H + py) * 4 + c = (px' * H + py') * 4 + c'"
  shows "px = px' \<and> py = py' \<and> c = c'"
proof -
  have 1: "px * H + py = px' * H + py'" and c: "c = c'"
    using eq assms(5-8) by presburger+
  have "(py + px * H) div H = px" "(py' + px' * H) div H = px'"
    using assms(1-4) by simp_all
  then have "px = px'" using 1 by (simp add: add.commute)
  then show ?thesis using 1 c by simp
qed

section \<open>Views whose numbers fit in 32 bits\<close>

lemma to_int32_id: "- 2147483648 \<le> n \<Longrightarrow> n < 2147483648 \<Longrightarrow> to_int32 n = n"
  by (simp add: to_int32_def)

lemma to_int32_range: "- 2147483648 \<le> to_int32 n" "to_int32 n < 2147483648"
  by (simp_all add: to_int32_def)

lemma to_int32_idem [simp]: "to_int32 (to_int32 n) = to_int32 n"
  by (rule to_int32_id) (rule to_int32_range)+

lemma to_int32_0 [simp]: "to_int32 0 = 0"
  by (simp add: to_int32_def)

lemma view_buf [simp]: "buf (lo a i0 i1 i2) = buf a" "buf (hi a i0 i1 i2) = buf a"
  by (simp_all add: lo_def hi_def)

lemma view_strides [simp]:
  "stride0 (lo a i0 i1 i2) = stride0 a" "stride1 (lo a i0 i1 i2) = stride1 a"
  "stride2 (lo a i0 i1 i2) = stride2 a"
  "stride0 (hi a i0 i1 i2) = stride0 a" "stride1 (hi a i0 i1 i2) = stride1 a"
  "stride2 (hi a i0 i1 i2) = stride2 a"
  by (simp_all add: lo_def hi_def)

lemma hi_shape:
  assumes "0 \<le> p" "p < 2147483648" "0 \<le> q" "q < 2147483648"
  shows "shape0 (hi a p q 4) = p" and "shape1 (hi a p q 4) = q" and "shape2 (hi a p q 4) = 4"
  using assms by (simp_all add: hi_def to_int32_id)

lemma hi_lo_offset:
  assumes "0 \<le> X" "0 \<le> Y"
  shows "offset (hi (lo a X Y 0) p q r)
       = to_int32 (offset a + stride0 a * to_int32 X + stride1 a * to_int32 Y)"
  using assms by (simp add: hi_def lo_def)

text \<open>
  The index of an element of a slice of a row-major array, when the offset of the slice
  fits in 32 bits.
\<close>

lemma nd_index_row_major:
  assumes rm: "stride0 a = shape1 a * 4" "stride1 a = 4" "stride2 a = 1" "offset a = 0"
    and X: "0 \<le> X" and Y: "0 \<le> Y" and H: "1 \<le> shape1 a"
    and fit: "(X * shape1 a + Y) * 4 < 2147483648"
  shows "nd_index (hi (lo a X Y 0) sw sh sc) i j k = ((X + i) * shape1 a + (Y + j)) * 4 + k"
proof -
  define n where "n = (X * shape1 a + Y) * 4"
  have "X * 1 \<le> X * shape1 a" using X H by (intro mult_left_mono) simp_all
  then have xb: "X \<le> n" "Y \<le> n" "0 \<le> n" unfolding n_def using X Y by simp_all
  have n: "n < 2147483648" unfolding n_def by (rule fit)
  have tx: "to_int32 X = X" "to_int32 Y = Y"
    using xb n X Y by (simp_all add: to_int32_id)
  have e: "offset a + stride0 a * to_int32 X + stride1 a * to_int32 Y = n"
    unfolding tx rm n_def by (simp add: algebra_simps)
  have o: "offset (hi (lo a X Y 0) sw sh sc) = n"
    unfolding hi_lo_offset [OF X Y] e using xb(3) n by (simp add: to_int32_id)
  show ?thesis
    unfolding nd_index_def o view_strides rm n_def by (simp add: algebra_simps)
qed

text \<open>The same for a slice of a slice, as the alpha loop reads it.\<close>

lemma nd_index_row_major_nested:
  assumes rm: "stride0 a = shape1 a * 4" "stride1 a = 4" "stride2 a = 1" "offset a = 0"
    and X: "0 \<le> X0" "X0 \<le> X" and Y: "0 \<le> Y0" "Y0 \<le> Y" and H: "1 \<le> shape1 a"
    and fit: "(X * shape1 a + Y) * 4 < 2147483648"
  shows "nd_index (hi (lo (hi (lo a X0 Y0 0) p q r) (X - X0) (Y - Y0) 0) sw sh sc) i j k
       = ((X + i) * shape1 a + (Y + j)) * 4 + k"
proof -
  let ?b = "hi (lo a X0 Y0 0) p q r"
  define n0 where "n0 = (X0 * shape1 a + Y0) * 4"
  define n where "n = (X * shape1 a + Y) * 4"
  have Xn: "0 \<le> X" and Yn: "0 \<le> Y" using X Y by simp_all
  have "X0 * shape1 a \<le> X * shape1 a" using X H by (intro mult_right_mono) simp_all
  then have le: "n0 \<le> n" unfolding n0_def n_def using Y by simp
  have "X0 * 1 \<le> X0 * shape1 a" using X H by (intro mult_left_mono) simp_all
  then have b0: "X0 \<le> n0" "Y0 \<le> n0" "0 \<le> n0" unfolding n0_def using X Y by simp_all
  have "X * 1 \<le> X * shape1 a" using Xn H by (intro mult_left_mono) simp_all
  then have b1: "X \<le> n" "Y \<le> n" unfolding n_def using Xn Yn by simp_all
  have n: "n < 2147483648" unfolding n_def by (rule fit)
  have t0: "to_int32 X0 = X0" "to_int32 Y0 = Y0"
    using b0 le n X Y by (simp_all add: to_int32_id)
  have t1: "to_int32 (X - X0) = X - X0" "to_int32 (Y - Y0) = Y - Y0"
    using b1 n X Y by (simp_all add: to_int32_id)
  have e0: "offset a + stride0 a * to_int32 X0 + stride1 a * to_int32 Y0 = n0"
    unfolding t0 rm n0_def by (simp add: algebra_simps)
  have o0: "offset ?b = n0"
    unfolding hi_lo_offset [OF X(1) Y(1)] e0 using b0(3) le n by (simp add: to_int32_id)
  have d: "0 \<le> X - X0" "0 \<le> Y - Y0" using X Y by simp_all
  have e1: "offset ?b + stride0 ?b * to_int32 (X - X0) + stride1 ?b * to_int32 (Y - Y0) = n"
    unfolding t1 o0 view_strides rm n0_def n_def by (simp add: algebra_simps)
  have o: "offset (hi (lo ?b (X - X0) (Y - Y0) 0) sw sh sc) = n"
    unfolding hi_lo_offset [OF d] e1 using b0(3) le n by (simp add: to_int32_id)
  show ?thesis
    unfolding nd_index_def o view_strides rm n_def by (simp add: algebra_simps)
qed

text \<open>The index of an element does not depend on the buffer of the view.\<close>

lemma nd_index_any_buf:
  "nd_index (hi (lo (ndarray_new b ds) x y z) p q r) i j k
   = nd_index (hi (lo (ndarray_new b' ds) x y z) p q r) i j k"
  by (simp add: nd_index_def hi_def lo_def ndarray_new_def split: prod.splits)

text \<open>The sides of a canvas that fits are small.\<close>

lemma canvas_sides:
  fixes OW OH N :: int
  assumes "1 \<le> OW" "1 \<le> OH" "OW * OH * 4 \<le> N"
  shows "OW * 4 \<le> N" and "OH * 4 \<le> N"
proof -
  have "OW * 1 \<le> OW * OH" using assms(1,2) by (intro mult_left_mono) simp_all
  then show "OW * 4 \<le> N" using assms(3) by simp
  have "1 * OH \<le> OW * OH" using assms(1,2) by (intro mult_right_mono) simp_all
  then show "OH * 4 \<le> N" using assms(3) by simp
qed

section \<open>Claims about the tile grid\<close>

text \<open>
  C8: for every image of width and height at least 1 and every tile \<open>(i, j)\<close> of the
  grid of one pass, the width and the height of the output region of the tile are even,
  are \<open>2 * (min dim (pos + chunk) - pos)\<close> in their axis, and are strictly positive.
\<close>

theorem outputRegion_size_even_positive:
  assumes "1 \<le> W" and "1 \<le> H" and "0 \<le> i" and "i < nChunks H" and "0 \<le> j" and "j < nChunks W"
  shows "even (t_outW (gridTile W H i j)) \<and> even (t_outH (gridTile W H i j)) \<and>
         t_outW (gridTile W H i j)
           = 2 * (min W (t_x (gridTile W H i j) + chunkLen W) - t_x (gridTile W H i j)) \<and>
         t_outH (gridTile W H i j)
           = 2 * (min H (t_y (gridTile W H i j) + chunkLen H) - t_y (gridTile W H i j)) \<and>
         0 < t_outW (gridTile W H i j) \<and> 0 < t_outH (gridTile W H i j)"
proof -
  have "t_outW (gridTile W H i j)
          = 2 * (min W (t_x (gridTile W H i j) + chunkLen W) - t_x (gridTile W H i j))"
    and "t_outH (gridTile W H i j)
          = 2 * (min H (t_y (gridTile W H i j) + chunkLen H) - t_y (gridTile W H i j))"
    by (simp_all add: gridTile_def tileOf_def Let_def)
  moreover have "0 < t_outW (gridTile W H i j)" and "0 < t_outH (gridTile W H i j)"
    using tile_bounds(11,12) [OF assms] by simp_all
  moreover have "even (t_outW (gridTile W H i j))" and "even (t_outH (gridTile W H i j))"
    by (simp_all add: gridTile_def tileOf_def Let_def)
  ultimately show ?thesis by simp
qed

theorem outputRegion_size_even_positive_witness:
  "(1::int) \<le> 2000 \<and> (1::int) \<le> 1500 \<and> (0::int) \<le> 1 \<and> 1 < nChunks 1500 \<and> (0::int) \<le> 1
   \<and> 1 < nChunks 2000 \<and>
   even (t_outW (gridTile 2000 1500 1 1)) \<and> even (t_outH (gridTile 2000 1500 1 1)) \<and>
   t_outW (gridTile 2000 1500 1 1)
     = 2 * (min 2000 (t_x (gridTile 2000 1500 1 1) + chunkLen 2000) - t_x (gridTile 2000 1500 1 1)) \<and>
   t_outH (gridTile 2000 1500 1 1)
     = 2 * (min 1500 (t_y (gridTile 2000 1500 1 1) + chunkLen 1500) - t_y (gridTile 2000 1500 1 1)) \<and>
   0 < t_outW (gridTile 2000 1500 1 1) \<and> 0 < t_outH (gridTile 2000 1500 1 1)"
proof -
  have h: "(1::int) \<le> 2000" "(1::int) \<le> 1500" "(0::int) \<le> 1" "1 < nChunks 1500" "1 < nChunks 2000"
    by (simp_all add: nChunks_def CHUNK_SIZE_def)
  show ?thesis
    using h outputRegion_size_even_positive [OF h(1,2,3,4) h(3) h(5)] by blast
qed



text \<open>
  C1, at the image of width 1025 and height 1: the grid has the two tiles \<open>(0, 0)\<close> and
  \<open>(0, 1)\<close> of width 512, whose output regions end at column 2048. The pixel
  \<open>(2048, 0)\<close> of the canvas \<open>[0, 2050) \<times> [0, 2)\<close> lies in the output region of no tile.
\<close>

theorem tile_grid_gap_1025:
  "nChunks 1025 = 2 \<and> chunkLen 1025 = 512 \<and> nChunks 1 = 1 \<and>
   t_x (gridTile 1025 1 0 1) * 2 + t_outW (gridTile 1025 1 0 1) = 2048 \<and>
   (0::int) \<le> 2048 \<and> (2048::int) < 2 * 1025 \<and>
   \<not> in_outputRegion (gridTile 1025 1 0 0) 2048 0 \<and>
   \<not> in_outputRegion (gridTile 1025 1 0 1) 2048 0"
  by (simp add: in_outputRegion_def gridTile_def tileOf_def chunkLen_def nChunks_def
      CHUNK_SIZE_def PAD_SIZE_def Let_def)

section \<open>The copy loops on the heap\<close>

lemma pick_keeps [simp]: "pick (hi a p q r) Null Null (Arr cs) = hi a p q r"
  by (simp add: pick_def fixes_axis_def hi_def)

lemma assign_heap:
  assumes "buf dest \<noteq> buf src" and "buf dest < length (mem w)"
  shows "assign dest src w
       = w\<lparr>mem := (mem w)[buf dest :=
              fold (\<lambda>k d. buf_set d (case k of (i0, i1, i2) \<Rightarrow> nd_index dest i0 i1 i2)
                             (buf_get (buffer_at (mem w) (buf src))
                                (case k of (i0, i1, i2) \<Rightarrow> nd_index src i0 i1 i2)))
                (List.product [0..shape0 dest - 1]
                   (List.product [0..shape1 dest - 1] [0..shape2 dest - 1]))
                (mem w ! buf dest)]\<rparr>"
proof -
  have "assign dest src w
      = fold (\<lambda>k w'. w'\<lparr>mem := (mem w')[buf dest :=
                buf_set (buffer_at (mem w') (buf dest))
                  (case k of (i0, i1, i2) \<Rightarrow> nd_index dest i0 i1 i2)
                  (buf_get (buffer_at (mem w') (buf src))
                     (case k of (i0, i1, i2) \<Rightarrow> nd_index src i0 i1 i2))]\<rparr>)
          (List.product [0..shape0 dest - 1]
             (List.product [0..shape1 dest - 1] [0..shape2 dest - 1])) w"
    unfolding assign_def fold_product
    by (rule arg_cong [where f = "\<lambda>F. fold F _ w"])
       (auto simp: fun_eq_iff nd_set_def nd_get_def)
  then show ?thesis
    using fold_copy_heap [OF assms] by simp
qed

lemma processAlphaChannel_heap:
  assumes "buf outputArray \<noteq> buf inputArray" and "buf outputArray < length (mem w)"
  shows "processAlphaChannel inputArray outputArray w
       = w\<lparr>mem := (mem w)[buf outputArray :=
              fold (\<lambda>k d. buf_set d (case k of (y, x) \<Rightarrow> nd_index outputArray x y 3)
                             (buf_get (buffer_at (mem w) (buf inputArray))
                                (case k of (y, x) \<Rightarrow> nd_index inputArray (x div 2) (y div 2) 3)))
                (List.product [0..shape1 outputArray - 1] [0..shape0 outputArray - 1])
                (mem w ! buf outputArray)]\<rparr>"
proof -
  have "processAlphaChannel inputArray outputArray w
      = fold (\<lambda>k w'. w'\<lparr>mem := (mem w')[buf outputArray :=
                buf_set (buffer_at (mem w') (buf outputArray))
                  (case k of (y, x) \<Rightarrow> nd_index outputArray x y 3)
                  (buf_get (buffer_at (mem w') (buf inputArray))
                     (case k of (y, x) \<Rightarrow> nd_index inputArray (x div 2) (y div 2) 3))]\<rparr>)
          (List.product [0..shape1 outputArray - 1] [0..shape0 outputArray - 1]) w"
    unfolding processAlphaChannel_def Let_def fold_product
    by (rule arg_cong [where f = "\<lambda>F. fold F _ w"])
       (auto simp: fun_eq_iff nd_set_def nd_get_def)
  then show ?thesis
    using fold_copy_heap [OF assms] by simp
qed

section \<open>Writes into a rectangle of a row-major canvas\<close>

lemma box_writes_pointwise:
  fixes d :: bytes
  assumes geo: "0 \<le> X" "0 \<le> Y" "X + ow \<le> OW" "Y + oh \<le> OH"
    and len: "int (length d) = OW * OH * 4"
    and p: "0 \<le> px" "px < OW" "0 \<le> py" "py < OH" "0 \<le> c" "c < 4"
  shows "fold (\<lambda>k d. buf_set d (case k of (i0, i1, i2) \<Rightarrow> ((X + i0) * OH + (Y + i1)) * 4 + i2) (g k))
              (List.product [0..ow - 1] (List.product [0..oh - 1] [0..3])) d
           ! nat ((px * OH + py) * 4 + c)
         = (if X \<le> px \<and> px < X + ow \<and> Y \<le> py \<and> py < Y + oh
            then to_uint8 (g (px - X, py - Y, c))
            else d ! nat ((px * OH + py) * 4 + c))"
proof -
  let ?f = "\<lambda>k. case k of (i0, i1, i2) \<Rightarrow> ((X + i0) * OH + (Y + i1)) * 4 + (i2::int)"
  let ?ks = "List.product [0..ow - 1] (List.product [0..oh - 1] [0..(3::int)])"
  have inj: "i0 = px - X \<and> i1 = py - Y \<and> i2 = c"
    if "(i0, i1, i2) \<in> set ?ks" "?f (i0, i1, i2) = (px * OH + py) * 4 + c" for i0 i1 i2
  proof -
    have r: "0 \<le> i1" "i1 < oh" "0 \<le> i2" "i2 < 4" using that(1) by auto
    have "X + i0 = px \<and> Y + i1 = py \<and> i2 = c"
      using r geo p that(2) by (intro row_major_inj [where H = OH]) auto
    then show ?thesis by auto
  qed
  have rng: "0 \<le> (px * OH + py) * 4 + c" "(px * OH + py) * 4 + c < int (length d)"
    using row_major_bounds [OF p] len by simp_all
  show ?thesis
  proof (cases "X \<le> px \<and> px < X + ow \<and> Y \<le> py \<and> py < Y + oh")
    case True
    let ?k = "(px - X, py - Y, c)"
    have k: "?k \<in> set ?ks" using True p by auto
    have fk: "?f ?k = (px * OH + py) * 4 + c" by simp
    have same: "\<forall>k'\<in>set ?ks. ?f k' = ?f ?k \<longrightarrow> g k' = g ?k"
    proof (intro ballI impI)
      fix k' assume a: "k' \<in> set ?ks" "?f k' = ?f ?k"
      obtain i0 i1 i2 where k': "k' = (i0, i1, i2)" by (cases k') auto
      from inj [of i0 i1 i2] a show "g k' = g ?k" unfolding k' fk by simp
    qed
    have "fold (\<lambda>k d. buf_set d (?f k) (g k)) ?ks d ! nat (?f ?k) = to_uint8 (g ?k)"
      using rng by (intro fold_buf_set_hit [OF k same]) (simp_all only: fk)
    then have "fold (\<lambda>k d. buf_set d (?f k) (g k)) ?ks d ! nat ((px * OH + py) * 4 + c)
               = to_uint8 (g ?k)"
      by (simp only: fk)
    then show ?thesis using True by simp
  next
    case False
    have "\<forall>k\<in>set ?ks. ?f k \<noteq> int (nat ((px * OH + py) * 4 + c))"
    proof
      fix k assume a: "k \<in> set ?ks"
      obtain i0 i1 i2 where k: "k = (i0, i1, i2)" by (cases k) auto
      have r: "0 \<le> i0" "i0 < ow" "0 \<le> i1" "i1 < oh" using a unfolding k by auto
      show "?f k \<noteq> int (nat ((px * OH + py) * 4 + c))"
      proof
        assume "?f k = int (nat ((px * OH + py) * 4 + c))"
        then have "?f (i0, i1, i2) = (px * OH + py) * 4 + c" using rng(1) k by simp
        from inj [OF a [unfolded k] this] r False show False by auto
      qed
    qed
    then have "fold (\<lambda>k d. buf_set d (?f k) (g k)) ?ks d ! nat ((px * OH + py) * 4 + c)
               = d ! nat ((px * OH + py) * 4 + c)"
      by (rule fold_buf_set_other)
    then show ?thesis by (simp only: False if_False)
  qed
qed

lemma alpha_writes_pointwise:
  fixes d :: bytes
  assumes geo: "0 \<le> X" "0 \<le> Y" "X + ow \<le> OW" "Y + oh \<le> OH"
    and len: "int (length d) = OW * OH * 4"
    and p: "0 \<le> px" "px < OW" "0 \<le> py" "py < OH" "0 \<le> c" "c < 4"
  shows "fold (\<lambda>k d. buf_set d (case k of (y, x) \<Rightarrow> ((X + x) * OH + (Y + y)) * 4 + 3) (g k))
              (List.product [0..oh - 1] [0..ow - 1]) d
           ! nat ((px * OH + py) * 4 + c)
         = (if X \<le> px \<and> px < X + ow \<and> Y \<le> py \<and> py < Y + oh \<and> c = 3
            then to_uint8 (g (py - Y, px - X))
            else d ! nat ((px * OH + py) * 4 + c))"
proof -
  let ?f = "\<lambda>k. case k of (y, x) \<Rightarrow> ((X + x) * OH + (Y + y)) * 4 + (3::int)"
  let ?ks = "List.product [0..oh - 1] [0..ow - 1]"
  have inj: "x = px - X \<and> y = py - Y \<and> c = 3"
    if "(y, x) \<in> set ?ks" "?f (y, x) = (px * OH + py) * 4 + c" for y x
  proof -
    have r: "0 \<le> y" "y < oh" using that(1) by auto
    have "X + x = px \<and> Y + y = py \<and> 3 = c"
      using r geo p that(2) by (intro row_major_inj [where H = OH]) auto
    then show ?thesis by auto
  qed
  have rng: "0 \<le> (px * OH + py) * 4 + c" "(px * OH + py) * 4 + c < int (length d)"
    using row_major_bounds [OF p] len by simp_all
  show ?thesis
  proof (cases "X \<le> px \<and> px < X + ow \<and> Y \<le> py \<and> py < Y + oh \<and> c = 3")
    case True
    let ?k = "(py - Y, px - X)"
    have k: "?k \<in> set ?ks" using True p by auto
    have fk: "?f ?k = (px * OH + py) * 4 + c" using True by simp
    have same: "\<forall>k'\<in>set ?ks. ?f k' = ?f ?k \<longrightarrow> g k' = g ?k"
    proof (intro ballI impI)
      fix k' assume a: "k' \<in> set ?ks" "?f k' = ?f ?k"
      obtain y x where k': "k' = (y, x)" by (cases k') auto
      from inj [of y x] a show "g k' = g ?k" unfolding k' fk by simp
    qed
    have "fold (\<lambda>k d. buf_set d (?f k) (g k)) ?ks d ! nat (?f ?k) = to_uint8 (g ?k)"
      using rng by (intro fold_buf_set_hit [OF k same]) (simp_all only: fk)
    then have "fold (\<lambda>k d. buf_set d (?f k) (g k)) ?ks d ! nat ((px * OH + py) * 4 + c)
               = to_uint8 (g ?k)"
      by (simp only: fk)
    then show ?thesis using True by simp
  next
    case False
    have "\<forall>k\<in>set ?ks. ?f k \<noteq> int (nat ((px * OH + py) * 4 + c))"
    proof
      fix k assume a: "k \<in> set ?ks"
      obtain y x where k: "k = (y, x)" by (cases k) auto
      have r: "0 \<le> x" "x < ow" "0 \<le> y" "y < oh" using a unfolding k by auto
      show "?f k \<noteq> int (nat ((px * OH + py) * 4 + c))"
      proof
        assume "?f k = int (nat ((px * OH + py) * 4 + c))"
        then have "?f (y, x) = (px * OH + py) * 4 + c" using rng(1) k by simp
        from inj [OF a [unfolded k] this] r False show False by auto
      qed
    qed
    then have "fold (\<lambda>k d. buf_set d (?f k) (g k)) ?ks d ! nat ((px * OH + py) * 4 + c)
               = d ! nat ((px * OH + py) * 4 + c)"
      by (rule fold_buf_set_other)
    then show ?thesis by (simp only: False if_False)
  qed
qed

text \<open>Every index below \<open>s0 * s1 * 4\<close> is the row-major index of one element.\<close>

lemma row_major_decompose:
  fixes n :: int
  assumes "0 \<le> n" "n < s0 * s1 * 4" "0 < s1"
  shows "0 \<le> n div (s1 * 4)" "n div (s1 * 4) < s0" "0 \<le> n div 4 mod s1" "n div 4 mod s1 < s1"
    "0 \<le> n mod 4" "n mod 4 < 4"
    "(n div (s1 * 4) * s1 + n div 4 mod s1) * 4 + n mod 4 = n"
proof -
  define m where "m = n div 4"
  have d: "n div (s1 * 4) = m div s1"
    unfolding m_def using zdiv_zmult2_eq [of s1 n 4] assms(3) by (simp add: mult.commute)
  have m0: "0 \<le> m" unfolding m_def using assms(1) by simp
  have m1: "m < s0 * s1" unfolding m_def using assms(2) by linarith
  have dm: "m div s1 * s1 + m mod s1 = m" by simp
  have md: "0 \<le> m mod s1" "m mod s1 < s1" using assms(3) by simp_all
  show "0 \<le> n div (s1 * 4)"
    unfolding d using m0 assms(3) by (simp add: pos_imp_zdiv_nonneg_iff)
  show "n div (s1 * 4) < s0"
  proof (rule ccontr)
    assume "\<not> n div (s1 * 4) < s0"
    then have "s0 \<le> m div s1" unfolding d by simp
    then have "s0 * s1 \<le> m div s1 * s1"
      using assms(3) by (intro mult_right_mono) simp_all
    then show False using dm md m1 by linarith
  qed
  show "0 \<le> n div 4 mod s1" "n div 4 mod s1 < s1" using assms(3) by simp_all
  show "0 \<le> n mod 4" "n mod 4 < 4" by simp_all
  have "(m div s1 * s1 + m mod s1) * 4 + n mod 4 = n"
    unfolding dm m_def by simp
  then show "(n div (s1 * 4) * s1 + n div 4 mod s1) * 4 + n mod 4 = n"
    unfolding d m_def .
qed

section \<open>Chunk extraction\<close>

lemma copy_to_fresh_is_region_bytes:
  fixes sd :: bytes
  assumes s: "0 \<le> s0" "0 < s1"
    and shape: "shape0 v = s0" "shape1 v = s1" "shape2 v = 4"
  shows "fold (\<lambda>k d. buf_set d (case k of (i0, i1, i2) \<Rightarrow> ((0 + i0) * s1 + (0 + i1)) * 4 + i2)
                  (buf_get sd (case k of (i0, i1, i2) \<Rightarrow> nd_index v i0 i1 i2)))
           (List.product [0..s0 - 1] (List.product [0..s1 - 1] [0..3]))
           (replicate (nat (s0 * s1 * 4)) 0)
         = region_bytes sd v"
    (is "?lhs = _")
proof (rule nth_equalityI)
  have nn: "0 \<le> s0 * s1 * 4" using s by simp
  show "length ?lhs = length (region_bytes sd v)"
    by (simp add: region_bytes_def shape)
  fix n assume "n < length ?lhs"
  then have n: "0 \<le> int n" "int n < s0 * s1 * 4" using nn by simp_all
  note dc = row_major_decompose [OF n s(2)]
  have len: "int (length (replicate (nat (s0 * s1 * 4)) (0::8 word))) = s0 * s1 * 4"
    using nn by simp
  have "?lhs ! nat ((int n div (s1 * 4) * s1 + int n div 4 mod s1) * 4 + int n mod 4)
      = to_uint8 (buf_get sd (nd_index v (int n div (s1 * 4)) (int n div 4 mod s1) (int n mod 4)))"
    using dc(1-6) s
    by (subst box_writes_pointwise [where OW = s0 and OH = s1, OF _ _ _ _ len]) simp_all
  then have "?lhs ! n
      = to_uint8 (buf_get sd (nd_index v (int n div (s1 * 4)) (int n div 4 mod s1) (int n mod 4)))"
    unfolding dc(7) by simp
  moreover have "n < nat (s0 * s1 * 4)" using n by simp
  ultimately show "?lhs ! n = region_bytes sd v ! n"
    by (simp add: region_bytes_def shape)
qed

lemma extractChunk_result:
  assumes a: "buf imageArray < length (mem w)" and s: "0 \<le> t_inW t" "0 < t_inH t"
    and sm: "t_inW t < 2147483648" "t_inH t < 2147483648"
  shows "extractChunk imageArray t w
       = (Inr (hi (lo imageArray (t_xStart t) (t_yStart t) 0) (t_inW t) (t_inH t) 4,
               ndarray_new (length (mem w)) (t_inW t, t_inH t, 4)),
          w\<lparr>mem := mem w @ [region_bytes (mem w ! buf imageArray)
                 (hi (lo imageArray (t_xStart t) (t_yStart t) 0) (t_inW t) (t_inH t) 4)]\<rparr>)"
proof -
  let ?inSlice = "hi (lo imageArray (t_xStart t) (t_yStart t) 0) (t_inW t) (t_inH t) 4"
  let ?subArr = "ndarray_new (length (mem w)) (t_inW t, t_inH t, 4)"
  let ?w1 = "w\<lparr>mem := mem w @ [replicate (nat (t_inW t * t_inH t * 4)) 0]\<rparr>"
  have "0 \<le> t_inW t * t_inH t" using s by (intro mult_nonneg_nonneg) simp_all
  then have nn: "\<not> t_inW t * t_inH t * 4 < 0" by linarith
  have s2: "0 \<le> t_inH t" using s(2) by simp
  have sh: "shape0 ?inSlice = t_inW t" "shape1 ?inSlice = t_inH t" "shape2 ?inSlice = 4"
    "buf ?inSlice = buf imageArray"
    by (simp_all add: hi_shape [OF s(1) sm(1) s2 sm(2)])
  have sub: "buf ?subArr = length (mem w)" "shape0 ?subArr = t_inW t" "shape1 ?subArr = t_inH t"
    "shape2 ?subArr = 4"
    by (simp_all add: ndarray_new_def)
  have idx: "(\<lambda>k. case k of (i0, i1, i2) \<Rightarrow> nd_index ?subArr i0 i1 i2)
           = (\<lambda>k. case k of (i0, i1, i2) \<Rightarrow> ((0 + i0) * t_inH t + (0 + i1)) * 4 + i2)"
    by (auto simp: fun_eq_iff nd_index_def ndarray_new_def algebra_simps)
  have src: "buffer_at (mem ?w1) (buf imageArray) = mem w ! buf imageArray"
    using a by (simp add: buffer_at_def nth_append)
  have four: "(4::int) - 1 = 3" by simp
  have w1: "mem ?w1 ! length (mem w) = replicate (nat (t_inW t * t_inH t * 4)) 0"
    "(mem ?w1)[length (mem w) := x] = mem w @ [x]" for x
    by simp_all
  have "assign ?subArr ?inSlice ?w1
      = ?w1\<lparr>mem := mem w @ [region_bytes (mem w ! buf imageArray) ?inSlice]\<rparr>"
    apply (subst assign_heap)
      apply (simp add: sub sh a less_imp_neq [OF a, symmetric])
     apply (simp add: sub)
    apply (simp only: sub sh idx src four w1 copy_to_fresh_is_region_bytes [OF s sh(1-3)])
    done
  then have "assign ?subArr ?inSlice ?w1
      = w\<lparr>mem := mem w @ [region_bytes (mem w ! buf imageArray) ?inSlice]\<rparr>"
    by simp
  then show ?thesis
    using nn by (simp add: extractChunk_def new_Uint8Array_def Let_def sh)
qed

section \<open>The effect of one tile on the canvas\<close>

lemma four_minus_one: "(4::int) - 1 = 3"
  by simp

lemma stitchChunk_effect:
  assumes ao: "ao < length (mem w)" and ac: "data_at chunkData \<noteq> ao"
  shows "\<exists>D. stitchChunk chunkData (ndarray_new ao (OW, OH, 4)) t w = w\<lparr>mem := (mem w)[ao := D]\<rparr> \<and>
           length D = length (mem w ! ao) \<and>
           (int (length (mem w ! ao)) = OW * OH * 4 \<and> OW * OH * 4 \<le> 2147483648 \<and>
            0 \<le> t_x t \<and> 0 \<le> t_y t \<and> t_x t * 2 + t_outW t \<le> OW \<and> t_y t * 2 + t_outH t \<le> OH \<and>
            0 < t_outW t \<and> 0 < t_outH t \<longrightarrow>
            (\<forall>px py c. 0 \<le> px \<and> px < OW \<and> 0 \<le> py \<and> py < OH \<and> 0 \<le> c \<and> c < 4 \<longrightarrow>
               D ! nat ((px * OH + py) * 4 + c)
                 = (if in_outputRegion t px py
                    then stitched_value (buffer_at (mem w) (data_at chunkData), dims chunkData) t px py c
                    else mem w ! ao ! nat ((px * OH + py) * 4 + c))))"
proof -
  let ?out = "ndarray_new ao (OW, OH, 4)"
  let ?outSlice = "outSliceOf ?out t"
  let ?chunkSlice = "hi (lo (ndarray_new (data_at chunkData) (dims chunkData))
                           ((t_x t - t_xStart t) * 2) ((t_y t - t_yStart t) * 2) 0)
                        (t_outW t) (t_outH t) 4"
  define g where "g = (\<lambda>k. buf_get (buffer_at (mem w) (data_at chunkData))
                          (case k of (i0, i1, i2) \<Rightarrow> nd_index ?chunkSlice i0 i1 i2))"
  define D where "D = fold (\<lambda>k d. buf_set d (case k of (i0, i1, i2) \<Rightarrow> nd_index ?outSlice i0 i1 i2)
                                     (g k))
                      (List.product [0..shape0 ?outSlice - 1]
                         (List.product [0..shape1 ?outSlice - 1] [0..shape2 ?outSlice - 1]))
                      (mem w ! ao)"
  have bs: "buf ?outSlice = ao" "buf ?chunkSlice = data_at chunkData"
    by (simp_all add: outSliceOf_def ndarray_new_def split: prod.splits)
  have pk: "pick ?outSlice Null Null (Arr [0, 1, 2]) = ?outSlice"
    "pick ?chunkSlice Null Null (Arr [0, 1, 2]) = ?chunkSlice"
    by (simp_all add: outSliceOf_def)
  have "assign ?outSlice ?chunkSlice w = w\<lparr>mem := (mem w)[ao := D]\<rparr>"
    apply (subst assign_heap)
      apply (simp only: bs not_sym [OF ac] not_False_eq_True)
     apply (simp only: bs ao)
    apply (simp only: bs D_def g_def)
    done
  then have 1: "stitchChunk chunkData ?out t w = w\<lparr>mem := (mem w)[ao := D]\<rparr>"
    by (simp only: stitchChunk_def Let_def pk)
  have 2: "length D = length (mem w ! ao)" by (simp add: D_def)
  have 3: "D ! nat ((px * OH + py) * 4 + c)
         = (if in_outputRegion t px py
            then stitched_value (buffer_at (mem w) (data_at chunkData), dims chunkData) t px py c
            else mem w ! ao ! nat ((px * OH + py) * 4 + c))"
    if len: "int (length (mem w ! ao)) = OW * OH * 4" and fit: "OW * OH * 4 \<le> 2147483648"
      and geo: "0 \<le> t_x t" "0 \<le> t_y t" "t_x t * 2 + t_outW t \<le> OW" "t_y t * 2 + t_outH t \<le> OH"
        "0 < t_outW t" "0 < t_outH t"
      and p: "0 \<le> px" "px < OW" "0 \<le> py" "py < OH" "0 \<le> c" "c < 4" for px py c
  proof -
    have X: "0 \<le> t_x t * 2" "0 \<le> t_y t * 2" using geo by simp_all
    have O: "1 \<le> OW" "1 \<le> OH" using geo by linarith+
    note sd = canvas_sides [OF O fit]
    have ow: "0 \<le> t_outW t" "t_outW t < 2147483648" "0 \<le> t_outH t" "t_outH t < 2147483648"
      using geo sd by linarith+
    have sh: "shape0 ?outSlice = t_outW t" "shape1 ?outSlice = t_outH t" "shape2 ?outSlice = 4"
      unfolding outSliceOf_def by (rule hi_shape [OF ow])+
    have xo: "t_x t * 2 < OW" "t_y t * 2 < OH" using geo by linarith+
    have lt: "(t_x t * 2 * OH + t_y t * 2) * 4 + 0 < OW * OH * 4"
      by (rule row_major_bounds(2) [OF X(1) xo(1) X(2) xo(2)]) simp_all
    have so: "shape1 ?out = OH" by (simp add: ndarray_new_def)
    have f: "(t_x t * 2 * shape1 ?out + t_y t * 2) * 4 < 2147483648"
      unfolding so using lt fit by linarith
    have idx: "nd_index ?outSlice i0 i1 i2 = ((t_x t * 2 + i0) * OH + (t_y t * 2 + i1)) * 4 + i2"
      for i0 i1 i2
    proof -
      have "nd_index (hi (lo ?out (t_x t * 2) (t_y t * 2) 0) (t_outW t) (t_outH t) 4) i0 i1 i2
          = ((t_x t * 2 + i0) * shape1 ?out + (t_y t * 2 + i1)) * 4 + i2"
        by (rule nd_index_row_major [OF _ _ _ _ X _ f]) (simp_all add: ndarray_new_def O)
      then show ?thesis by (simp add: outSliceOf_def ndarray_new_def)
    qed
    have D': "D = fold (\<lambda>k d. buf_set d
                        (case k of (i0, i1, i2) \<Rightarrow> ((t_x t * 2 + i0) * OH + (t_y t * 2 + i1)) * 4 + i2)
                        (g k))
                      (List.product [0..t_outW t - 1] (List.product [0..t_outH t - 1] [0..3]))
                      (mem w ! ao)"
      unfolding D_def sh idx four_minus_one ..
    have v: "to_uint8 (g (px - t_x t * 2, py - t_y t * 2, c))
           = stitched_value (buffer_at (mem w) (data_at chunkData), dims chunkData) t px py c"
      unfolding g_def stitched_value_def prod.case
        nd_index_any_buf [where b = "data_at chunkData" and b' = 0] ..
    show ?thesis
      unfolding D' box_writes_pointwise [OF X geo(3,4) len p] in_outputRegion_def v ..
  qed
  show ?thesis using 1 2 3 by blast
qed

lemma tile_input_positive:
  assumes "1 \<le> W" and "1 \<le> H" and "0 \<le> i" and "i < nChunks H" and "0 \<le> j" and "j < nChunks W"
  shows "0 < t_inW (gridTile W H i j)" and "0 < t_inH (gridTile W H i j)"
proof -
  note b = tile_bounds [OF assms]
  note f = gridTile_fields [OF assms]
  have "0 < t_outW (gridTile W H i j) div 2" and "0 < t_outH (gridTile W H i j) div 2"
    unfolding f(3,4) using chunkLen_pos [OF assms(1)] chunkLen_pos [OF assms(2)] by simp_all
  then show "0 < t_inW (gridTile W H i j)" and "0 < t_inH (gridTile W H i j)"
    using b(5,10,2,7) by linarith+
qed

lemma pixel_canvas:
  assumes "canvas_for w img outArr"
    and "0 \<le> px" "px < shape0 img * 2" "0 \<le> py" "py < shape1 img * 2" "0 \<le> c" "c < 4"
  shows "pixel w outArr px py c = mem w ! buf outArr ! nat ((px * (shape1 img * 2) + py) * 4 + c)"
proof -
  have o: "outArr = ndarray_new (buf outArr) (shape0 img * 2, shape1 img * 2, 4)"
    and b: "buf outArr < length (mem w)"
    and l: "int (length (mem w ! buf outArr)) = shape0 img * 2 * (shape1 img * 2) * 4"
    using assms(1) by (simp_all add: canvas_for_def)
  have i: "nd_index outArr px py c = (px * (shape1 img * 2) + py) * 4 + c"
    by (subst o) (simp add: nd_index_def ndarray_new_def algebra_simps)
  show ?thesis
    using row_major_bounds [OF assms(2-7)] b l
    by (simp add: pixel_def nd_get_def i buffer_at_def buf_get_def to_uint8_def)
qed

lemma pixel_same_buffer:
  "buffer_at (mem w') (buf a) = buffer_at (mem w) (buf a) \<Longrightarrow> pixel w' a px py c = pixel w a px py c"
  by (simp add: pixel_def nd_get_def)

lemma tile_chunk_eq:
  "tile_chunk d img i j
   = (region_bytes d (hi (lo img (t_xStart (gridTile (shape0 img) (shape1 img) i j))
                                 (t_yStart (gridTile (shape0 img) (shape1 img) i j)) 0)
                         (t_inW (gridTile (shape0 img) (shape1 img) i j))
                         (t_inH (gridTile (shape0 img) (shape1 img) i j)) 4),
      (t_inW (gridTile (shape0 img) (shape1 img) i j),
       t_inH (gridTile (shape0 img) (shape1 img) i j), 4))"
  by (simp add: tile_chunk_def inputRegion_def Let_def)

text \<open>What the first half of the body of the loops does: lines 83 to 97.\<close>

lemma tile_inference:
  assumes img: "rgba_image w img"
    and i: "0 \<le> i" "i < nChunks (shape1 img)" and j: "0 \<le> j" "j < nChunks (shape0 img)"
  shows "upscaleFrame_tile run img outArr (chunkLen (shape0 img)) (chunkLen (shape1 img)) i j w
       = (let t = gridTile (shape0 img) (shape1 img) i j;
              w1 = w\<lparr>mem := mem w @ [fst (tile_chunk (mem w ! buf img) img i j)]\<rparr>
          in case run (sess w) (tile_chunk (mem w ! buf img) img i j) of
               (Inr (Some (cd, ds)), s') \<Rightarrow>
                 (Inr (),
                  processAlphaChannel
                    (hi (lo (hi (lo img (t_xStart t) (t_yStart t) 0) (t_inW t) (t_inH t) 4)
                            (t_x t - t_xStart t) (t_y t - t_yStart t) 0)
                        (t_outW t div 2) (t_outH t div 2) 4)
                    (outSliceOf outArr t)
                    (stitchChunk \<lparr>data_at = length (mem w) + 1, dims = ds\<rparr> outArr t
                       (w1\<lparr>mem := mem w1 @ [cd], sess := s'\<rparr>)))
             | (Inr None, s') \<Rightarrow> (Inl TypeError, w1\<lparr>sess := s'\<rparr>)
             | (Inl e, s') \<Rightarrow> (Inl TypeError, w1\<lparr>sess := s'\<rparr>))"
proof -
  let ?t = "gridTile (shape0 img) (shape1 img) i j"
  have WH: "1 \<le> shape0 img" "1 \<le> shape1 img" and a: "buf img < length (mem w)"
    using img by (simp_all add: rgba_image_def)
  have "0 < t_inW ?t" "0 < t_inH ?t"
    using tile_input_positive [OF WH i j] by simp_all
  then have s: "0 \<le> t_inW ?t" "0 < t_inH ?t" by simp_all
  have sm: "t_inW ?t < 2147483648" "t_inH ?t < 2147483648"
    using tile_extents_small(1,2) [OF WH i j] by simp_all
  have t: "tileOf (shape0 img) (shape1 img) (chunkLen (shape0 img)) (chunkLen (shape1 img)) i j = ?t"
    by (simp add: gridTile_def)
  show ?thesis
    unfolding upscaleFrame_tile_def t Let_def extractChunk_result [OF a s sm] tile_chunk_eq
    by (simp add: runSuperRes_def prepareImage_def ndarray_new_def buffer_at_def Let_def
        split: prod.splits sum.splits option.splits)
qed

lemma processAlphaChannel_effect:
  assumes ao: "ao < length (mem w)" and ai: "buf img \<noteq> ao"
  shows "\<exists>D. processAlphaChannel
               (hi (lo (hi (lo img (t_xStart t) (t_yStart t) 0) (t_inW t) (t_inH t) 4)
                       (t_x t - t_xStart t) (t_y t - t_yStart t) 0)
                   (t_outW t div 2) (t_outH t div 2) 4)
               (outSliceOf (ndarray_new ao (OW, OH, 4)) t) w
             = w\<lparr>mem := (mem w)[ao := D]\<rparr> \<and>
           length D = length (mem w ! ao) \<and>
           (int (length (mem w ! ao)) = OW * OH * 4 \<and> OW * OH * 4 \<le> 2147483648 \<and>
            0 \<le> t_x t \<and> 0 \<le> t_y t \<and> t_x t * 2 + t_outW t \<le> OW \<and> t_y t * 2 + t_outH t \<le> OH \<and>
            0 < t_outW t \<and> 0 < t_outH t \<and>
            0 \<le> t_xStart t \<and> 0 \<le> t_yStart t \<and> t_xStart t \<le> t_x t \<and> t_yStart t \<le> t_y t \<and>
            stride0 img = shape1 img * 4 \<and> stride1 img = 4 \<and> stride2 img = 1 \<and> offset img = 0 \<and>
            OW = shape0 img * 2 \<and> OH = shape1 img * 2 \<longrightarrow>
            (\<forall>px py c. 0 \<le> px \<and> px < OW \<and> 0 \<le> py \<and> py < OH \<and> 0 \<le> c \<and> c < 4 \<longrightarrow>
               D ! nat ((px * OH + py) * 4 + c)
                 = (if in_outputRegion t px py \<and> c = 3
                    then pixel w img (px div 2) (py div 2) 3
                    else mem w ! ao ! nat ((px * OH + py) * 4 + c))))"
proof -
  let ?out = "ndarray_new ao (OW, OH, 4)"
  let ?outSlice = "outSliceOf ?out t"
  let ?alphaIn = "hi (lo (hi (lo img (t_xStart t) (t_yStart t) 0) (t_inW t) (t_inH t) 4)
                         (t_x t - t_xStart t) (t_y t - t_yStart t) 0)
                     (t_outW t div 2) (t_outH t div 2) 4"
  define g where "g = (\<lambda>k. buf_get (buffer_at (mem w) (buf img))
                          (case k of (y, x) \<Rightarrow> nd_index ?alphaIn (x div 2) (y div 2) 3))"
  define D where "D = fold (\<lambda>k d. buf_set d (case k of (y, x) \<Rightarrow> nd_index ?outSlice x y 3) (g k))
                      (List.product [0..shape1 ?outSlice - 1] [0..shape0 ?outSlice - 1])
                      (mem w ! ao)"
  have bs: "buf ?outSlice = ao" "buf ?alphaIn = buf img"
    by (simp_all add: outSliceOf_def ndarray_new_def)
  have 1: "processAlphaChannel ?alphaIn ?outSlice w = w\<lparr>mem := (mem w)[ao := D]\<rparr>"
    apply (subst processAlphaChannel_heap)
      apply (simp only: bs not_sym [OF ai] not_False_eq_True)
     apply (simp only: bs ao)
    apply (simp only: bs D_def g_def)
    done
  have 2: "length D = length (mem w ! ao)" by (simp add: D_def)
  have 3: "D ! nat ((px * OH + py) * 4 + c)
         = (if in_outputRegion t px py \<and> c = 3
            then pixel w img (px div 2) (py div 2) 3
            else mem w ! ao ! nat ((px * OH + py) * 4 + c))"
    if len: "int (length (mem w ! ao)) = OW * OH * 4" and fit: "OW * OH * 4 \<le> 2147483648"
      and geo: "0 \<le> t_x t" "0 \<le> t_y t" "t_x t * 2 + t_outW t \<le> OW" "t_y t * 2 + t_outH t \<le> OH"
        "0 < t_outW t" "0 < t_outH t"
      and pad: "0 \<le> t_xStart t" "0 \<le> t_yStart t" "t_xStart t \<le> t_x t" "t_yStart t \<le> t_y t"
      and rm: "stride0 img = shape1 img * 4" "stride1 img = 4" "stride2 img = 1" "offset img = 0"
      and O2: "OW = shape0 img * 2" "OH = shape1 img * 2"
      and p: "0 \<le> px" "px < OW" "0 \<le> py" "py < OH" "0 \<le> c" "c < 4" for px py c
  proof -
    have X: "0 \<le> t_x t * 2" "0 \<le> t_y t * 2" using geo by simp_all
    have O: "1 \<le> OW" "1 \<le> OH" using geo by linarith+
    note sd = canvas_sides [OF O fit]
    have ow: "0 \<le> t_outW t" "t_outW t < 2147483648" "0 \<le> t_outH t" "t_outH t < 2147483648"
      using geo sd by linarith+
    have sh: "shape0 ?outSlice = t_outW t" "shape1 ?outSlice = t_outH t"
      unfolding outSliceOf_def by (rule hi_shape [OF ow])+
    have xo: "t_x t * 2 < OW" "t_y t * 2 < OH" using geo by linarith+
    have lt: "(t_x t * 2 * OH + t_y t * 2) * 4 + 0 < OW * OH * 4"
      by (rule row_major_bounds(2) [OF X(1) xo(1) X(2) xo(2)]) simp_all
    have so: "shape1 ?out = OH" by (simp add: ndarray_new_def)
    have f: "(t_x t * 2 * shape1 ?out + t_y t * 2) * 4 < 2147483648"
      unfolding so using lt fit by linarith
    have idx: "nd_index ?outSlice i0 i1 i2 = ((t_x t * 2 + i0) * OH + (t_y t * 2 + i1)) * 4 + i2"
      for i0 i1 i2
    proof -
      have "nd_index (hi (lo ?out (t_x t * 2) (t_y t * 2) 0) (t_outW t) (t_outH t) 4) i0 i1 i2
          = ((t_x t * 2 + i0) * shape1 ?out + (t_y t * 2 + i1)) * 4 + i2"
        by (rule nd_index_row_major [OF _ _ _ _ X _ f]) (simp_all add: ndarray_new_def O)
      then show ?thesis by (simp add: outSliceOf_def ndarray_new_def)
    qed
    have D': "D = fold (\<lambda>k d. buf_set d
                        (case k of (y, x) \<Rightarrow> ((t_x t * 2 + x) * OH + (t_y t * 2 + y)) * 4 + 3)
                        (g k))
                      (List.product [0..t_outH t - 1] [0..t_outW t - 1])
                      (mem w ! ao)"
      unfolding D_def sh idx ..
    have WH: "1 \<le> shape0 img" "1 \<le> shape1 img" using O O2 by simp_all
    have xi: "t_x t < shape0 img" "t_y t < shape1 img" using xo O2 by simp_all
    define A where "A = shape0 img * shape1 img"
    have li: "(t_x t * shape1 img + t_y t) * 4 + 0 < A * 4"
      unfolding A_def by (rule row_major_bounds(2) [OF geo(1) xi(1) geo(2) xi(2)]) simp_all
    have A0: "0 \<le> A" unfolding A_def using WH by simp
    have "OW * OH * 4 = A * 16" unfolding O2 A_def by simp
    then have fi: "(t_x t * shape1 img + t_y t) * 4 < 2147483648"
      using li A0 fit by linarith
    have src: "nd_index ?alphaIn i0 i1 i2 = ((t_x t + i0) * shape1 img + (t_y t + i1)) * 4 + i2"
      for i0 i1 i2
      by (rule nd_index_row_major_nested [OF rm pad(1,3) pad(2,4) WH(2) fi])
    have h: "(px - t_x t * 2) div 2 = px div 2 - t_x t" "(py - t_y t * 2) div 2 = py div 2 - t_y t"
      by simp_all
    have gv: "g (py - t_y t * 2, px - t_x t * 2)
            = buf_get (buffer_at (mem w) (buf img))
                (((t_x t + (px div 2 - t_x t)) * shape1 img + (t_y t + (py div 2 - t_y t))) * 4 + 3)"
      by (simp only: g_def prod.case src h)
    have pv: "nd_index img (px div 2) (py div 2) 3 = (px div 2 * shape1 img + py div 2) * 4 + 3"
      by (simp add: nd_index_def rm algebra_simps)
    have v: "to_uint8 (g (py - t_y t * 2, px - t_x t * 2)) = pixel w img (px div 2) (py div 2) 3"
      unfolding gv pixel_def nd_get_def pv by simp
    show ?thesis
      unfolding D' alpha_writes_pointwise [OF X geo(3,4) len p] in_outputRegion_def v
      by (simp add: conj_ac)
  qed
  show ?thesis using 1 2 3 by blast
qed

lemma tile_success:
  assumes img: "rgba_image w img" and cv: "canvas_for w img outArr"
    and i: "0 \<le> i" "i < nChunks (shape1 img)" and j: "0 \<le> j" "j < nChunks (shape0 img)"
    and run: "run (sess w) (tile_chunk (mem w ! buf img) img i j) = (Inr (Some r), s')"
  shows "\<exists>w'. upscaleFrame_tile run img outArr (chunkLen (shape0 img)) (chunkLen (shape1 img)) i j w
                 = (Inr (), w') \<and>
              sess w' = s' \<and> length (mem w') = length (mem w) + 2 \<and>
              (\<forall>a<length (mem w). a \<noteq> buf outArr \<longrightarrow> mem w' ! a = mem w ! a) \<and>
              length (mem w' ! buf outArr) = length (mem w ! buf outArr) \<and>
              (canvas_fits (shape0 img) (shape1 img) \<longrightarrow>
               (\<forall>px py c. 0 \<le> px \<and> px < shape0 img * 2 \<and> 0 \<le> py \<and> py < shape1 img * 2 \<and>
                           0 \<le> c \<and> c < 4 \<longrightarrow>
                  mem w' ! buf outArr ! nat ((px * (shape1 img * 2) + py) * 4 + c)
                    = (if in_outputRegion (gridTile (shape0 img) (shape1 img) i j) px py
                       then (if c = 3 then pixel w img (px div 2) (py div 2) 3
                             else stitched_value r (gridTile (shape0 img) (shape1 img) i j) px py c)
                       else mem w ! buf outArr ! nat ((px * (shape1 img * 2) + py) * 4 + c))))"
proof -
  let ?t = "gridTile (shape0 img) (shape1 img) i j"
  let ?ao = "buf outArr"
  let ?OW = "shape0 img * 2" and ?OH = "shape1 img * 2"
  obtain cd ds where r: "r = (cd, ds)" by (cases r) auto
  have WH: "1 \<le> shape0 img" "1 \<le> shape1 img" and a: "buf img < length (mem w)"
    and rm: "stride0 img = shape1 img * 4" "stride1 img = 4" "stride2 img = 1" "offset img = 0"
    using img by (simp_all add: rgba_image_def)
  have o: "outArr = ndarray_new ?ao (?OW, ?OH, 4)"
    and ao: "?ao < length (mem w)" and ne: "buf img \<noteq> ?ao"
    and len: "int (length (mem w ! ?ao)) = ?OW * ?OH * 4"
    using cv by (auto simp: canvas_for_def)
  note b = tile_bounds [OF WH i j]
  have geo: "0 \<le> t_x ?t" "0 \<le> t_y ?t" "t_x ?t * 2 + t_outW ?t \<le> ?OW" "t_y ?t * 2 + t_outH ?t \<le> ?OH"
    "0 < t_outW ?t" "0 < t_outH ?t"
    using b by simp_all
  have pad: "0 \<le> t_xStart ?t" "0 \<le> t_yStart ?t" "t_xStart ?t \<le> t_x ?t" "t_yStart ?t \<le> t_y ?t"
    using b by simp_all
  define w2 where "w2 = w\<lparr>mem := mem w @ [fst (tile_chunk (mem w ! buf img) img i j)]\<rparr>
                          \<lparr>mem := mem (w\<lparr>mem := mem w @ [fst (tile_chunk (mem w ! buf img) img i j)]\<rparr>) @ [cd],
                           sess := s'\<rparr>"
  define cdat where "cdat = \<lparr>data_at = length (mem w) + 1, dims = ds\<rparr>"
  have w2: "mem w2 = mem w @ [fst (tile_chunk (mem w ! buf img) img i j), cd]" "sess w2 = s'"
    by (simp_all add: w2_def)
  have ao2: "?ao < length (mem w2)" using ao by (simp add: w2)
  have ac: "data_at cdat \<noteq> ?ao" using ao by (simp add: cdat_def)
  have m2: "mem w2 ! ?ao = mem w ! ?ao" using ao by (simp add: w2 nth_append)
  have len2: "int (length (mem w2 ! ?ao)) = ?OW * ?OH * 4" using len m2 by simp
  have cb: "buffer_at (mem w2) (data_at cdat) = cd"
    by (simp add: buffer_at_def w2 cdat_def nth_append)
  from stitchChunk_effect [OF ao2 ac, where OW = ?OW and OH = ?OH and t = ?t]
  obtain D1 where st: "stitchChunk cdat (ndarray_new ?ao (?OW, ?OH, 4)) ?t w2 = w2\<lparr>mem := (mem w2)[?ao := D1]\<rparr>"
    and l1: "length D1 = length (mem w2 ! ?ao)"
    and q1: "int (length (mem w2 ! ?ao)) = ?OW * ?OH * 4 \<and> ?OW * ?OH * 4 \<le> 2147483648 \<and>
             0 \<le> t_x ?t \<and> 0 \<le> t_y ?t \<and> t_x ?t * 2 + t_outW ?t \<le> ?OW \<and>
             t_y ?t * 2 + t_outH ?t \<le> ?OH \<and> 0 < t_outW ?t \<and> 0 < t_outH ?t \<longrightarrow>
             (\<forall>px py c. 0 \<le> px \<and> px < ?OW \<and> 0 \<le> py \<and> py < ?OH \<and> 0 \<le> c \<and> c < 4 \<longrightarrow>
                D1 ! nat ((px * ?OH + py) * 4 + c)
                  = (if in_outputRegion ?t px py
                     then stitched_value (buffer_at (mem w2) (data_at cdat), dims cdat) ?t px py c
                     else mem w2 ! ?ao ! nat ((px * ?OH + py) * 4 + c)))"
    by (elim exE conjE)
  define w3 where "w3 = w2\<lparr>mem := (mem w2)[?ao := D1]\<rparr>"
  have w3: "mem w3 = (mem w2)[?ao := D1]" "sess w3 = s'" by (simp_all add: w3_def w2)
  have ao3: "?ao < length (mem w3)" using ao2 by (simp add: w3)
  have m3: "mem w3 ! ?ao = D1" using ao2 by (simp add: w3)
  have len3: "int (length (mem w3 ! ?ao)) = ?OW * ?OH * 4" using len2 l1 m3 by simp
  have src3: "buffer_at (mem w3) (buf img) = buffer_at (mem w) (buf img)"
    using a ne by (simp add: buffer_at_def w3 w2 nth_append)
  from processAlphaChannel_effect [OF ao3 ne, where OW = ?OW and OH = ?OH and t = ?t]
  obtain D2 where al: "processAlphaChannel
               (hi (lo (hi (lo img (t_xStart ?t) (t_yStart ?t) 0) (t_inW ?t) (t_inH ?t) 4)
                       (t_x ?t - t_xStart ?t) (t_y ?t - t_yStart ?t) 0)
                   (t_outW ?t div 2) (t_outH ?t div 2) 4)
               (outSliceOf (ndarray_new ?ao (?OW, ?OH, 4)) ?t) w3
             = w3\<lparr>mem := (mem w3)[?ao := D2]\<rparr>"
    and l2: "length D2 = length (mem w3 ! ?ao)"
    and q2: "int (length (mem w3 ! ?ao)) = ?OW * ?OH * 4 \<and> ?OW * ?OH * 4 \<le> 2147483648 \<and>
             0 \<le> t_x ?t \<and> 0 \<le> t_y ?t \<and> t_x ?t * 2 + t_outW ?t \<le> ?OW \<and>
             t_y ?t * 2 + t_outH ?t \<le> ?OH \<and> 0 < t_outW ?t \<and> 0 < t_outH ?t \<and>
             0 \<le> t_xStart ?t \<and> 0 \<le> t_yStart ?t \<and> t_xStart ?t \<le> t_x ?t \<and> t_yStart ?t \<le> t_y ?t \<and>
             stride0 img = shape1 img * 4 \<and> stride1 img = 4 \<and> stride2 img = 1 \<and> offset img = 0 \<and>
             ?OW = shape0 img * 2 \<and> ?OH = shape1 img * 2 \<longrightarrow>
             (\<forall>px py c. 0 \<le> px \<and> px < ?OW \<and> 0 \<le> py \<and> py < ?OH \<and> 0 \<le> c \<and> c < 4 \<longrightarrow>
                D2 ! nat ((px * ?OH + py) * 4 + c)
                  = (if in_outputRegion ?t px py \<and> c = 3
                     then pixel w3 img (px div 2) (py div 2) 3
                     else mem w3 ! ?ao ! nat ((px * ?OH + py) * 4 + c)))"
    by (elim exE conjE)
  define w4 where "w4 = w3\<lparr>mem := (mem w3)[?ao := D2]\<rparr>"
  have w4: "mem w4 = (mem w2)[?ao := D2]" "sess w4 = s'" by (simp_all add: w4_def w3)
  have res: "upscaleFrame_tile run img outArr (chunkLen (shape0 img)) (chunkLen (shape1 img)) i j w
           = (Inr (), w4)"
    unfolding tile_inference [OF img i j] Let_def run r
    apply (simp only: prod.case sum.case option.case)
    apply (subst (1 2) o)
    apply (simp only: cdat_def [symmetric] w2_def [symmetric] st w3_def [symmetric] al
        w4_def [symmetric])
    done
  have f1: "length (mem w4) = length (mem w) + 2" by (simp add: w4 w2)
  have f2: "\<forall>a<length (mem w). a \<noteq> ?ao \<longrightarrow> mem w4 ! a = mem w ! a"
    by (simp add: w4 w2 nth_append)
  have f3: "length (mem w4 ! ?ao) = length (mem w ! ?ao)"
    using ao2 l2 m3 l1 m2 by (simp add: w4)
  have f4: "mem w4 ! ?ao ! nat ((px * ?OH + py) * 4 + c)
          = (if in_outputRegion ?t px py
             then (if c = 3 then pixel w img (px div 2) (py div 2) 3
                   else stitched_value r ?t px py c)
             else mem w ! ?ao ! nat ((px * ?OH + py) * 4 + c))"
    if fits: "canvas_fits (shape0 img) (shape1 img)"
      and p: "0 \<le> px" "px < ?OW" "0 \<le> py" "py < ?OH" "0 \<le> c" "c < 4" for px py c
  proof -
    have fit: "?OW * ?OH * 4 \<le> 2147483648" using fits by (simp only: canvas_fits_def)
    have p1: "D1 ! nat ((px * ?OH + py) * 4 + c)
                = (if in_outputRegion ?t px py
                   then stitched_value (buffer_at (mem w2) (data_at cdat), dims cdat) ?t px py c
                   else mem w2 ! ?ao ! nat ((px * ?OH + py) * 4 + c))"
      using q1 len2 fit geo p by blast
    have p2: "D2 ! nat ((px * ?OH + py) * 4 + c)
                = (if in_outputRegion ?t px py \<and> c = 3
                   then pixel w3 img (px div 2) (py div 2) 3
                   else mem w3 ! ?ao ! nat ((px * ?OH + py) * 4 + c))"
      using q2 len3 fit geo pad rm p by blast
    have d2: "mem w4 ! ?ao = D2" using ao2 by (simp add: w4)
    have "dims cdat = ds" by (simp add: cdat_def)
    then have sv: "stitched_value (buffer_at (mem w2) (data_at cdat), dims cdat) ?t px py c
                 = stitched_value r ?t px py c"
      by (simp only: cb r)
    show ?thesis
      unfolding d2 p2 p1 m3 m2 sv pixel_same_buffer [OF src3]
      by simp
  qed
  show ?thesis using res w4(2) f1 f2 f3 f4 by blast
qed

lemma tile_failure:
  assumes img: "rgba_image w img"
    and i: "0 \<le> i" "i < nChunks (shape1 img)" and j: "0 \<le> j" "j < nChunks (shape0 img)"
    and run: "run (sess w) (tile_chunk (mem w ! buf img) img i j) = (x, s')" "no_result x"
  shows "upscaleFrame_tile run img outArr (chunkLen (shape0 img)) (chunkLen (shape1 img)) i j w
       = (Inl TypeError, w\<lparr>mem := mem w @ [fst (tile_chunk (mem w ! buf img) img i j)], sess := s'\<rparr>)"
  unfolding tile_inference [OF img i j] Let_def run(1)
  using run(2) by (auto simp: no_result_def split: sum.splits option.splits)

section \<open>Loops that may throw\<close>

declare for_loop.simps [simp del]

lemma for_loop_rule:
  assumes "s \<le> n" and "I s acc w"
    and step: "\<And>k a v. s \<le> k \<Longrightarrow> k < n \<Longrightarrow> I k a v \<Longrightarrow>
                 (case body k a v of (Inl e, v') \<Rightarrow> E e v' | (Inr a', v') \<Rightarrow> I (k + 1) a' v')"
  shows "case for_loop s n body acc w of
           (Inl e, w') \<Rightarrow> E e w'
         | (Inr acc', w') \<Rightarrow> I n acc' w'"
  using assms
proof (induction s n body acc w rule: for_loop.induct)
  case (1 s n body acc w)
  show ?case
  proof (cases "s < n")
    case False
    then have "s = n" using "1.prems"(1) by simp
    then show ?thesis using "1.prems"(2) by (simp add: for_loop.simps [of n n])
  next
    case True
    obtain x v' where b: "body s acc w = (x, v')" by (cases "body s acc w") auto
    show ?thesis
    proof (cases x)
      case (Inl e)
      then show ?thesis
        using "1.prems"(3) [of s acc w] "1.prems"(2) True b
        by (simp add: for_loop.simps [of s n])
    next
      case (Inr a')
      have I': "I (s + 1) a' v'"
        using "1.prems"(3) [of s acc w] "1.prems"(2) True b Inr by simp
      have "case for_loop (s + 1) n body a' v' of
              (Inl e, w') \<Rightarrow> E e w'
            | (Inr acc', w') \<Rightarrow> I n acc' w'"
        using True b Inr I' "1.prems"(3)
        by (intro "1.IH" [of x v' a']) simp_all
      then show ?thesis
        using True b Inr by (simp add: for_loop.simps [of s n])
    qed
  qed
qed

section \<open>The canvas covered so far\<close>

lemma in_outputRegion_grid:
  assumes "1 \<le> W" and "1 \<le> H" and "0 \<le> i" and "i < nChunks H" and "0 \<le> m" and "m < nChunks W"
  shows "in_outputRegion (gridTile W H i m) px py
       = (m * chunkLen W * 2 \<le> px \<and> px < (m + 1) * chunkLen W * 2 \<and>
          i * chunkLen H * 2 \<le> py \<and> py < (i + 1) * chunkLen H * 2)"
  unfolding in_outputRegion_def gridTile_fields [OF assms]
  by (simp add: algebra_simps)

lemma tiles_done_step:
  assumes "1 \<le> W" and "1 \<le> H" and "0 \<le> i" and "i < nChunks H" and "0 \<le> m" and "m < nChunks W"
    and "0 \<le> px" and "0 \<le> py"
  shows "tiles_done W H i (m + 1) px py
       = (tiles_done W H i m px py \<or> in_outputRegion (gridTile W H i m) px py)"
proof -
  have "(m + 1) * chunkLen W \<le> nChunks W * chunkLen W"
    using assms(6) chunkLen_pos [OF assms(1)] by (intro mult_right_mono) simp_all
  then have "(m + 1) * chunkLen W * 2 \<le> nChunks W * chunkLen W * 2" by simp
  moreover have "m * chunkLen W * 2 \<le> (m + 1) * chunkLen W * 2"
    using chunkLen_pos [OF assms(1)] by (simp add: algebra_simps)
  ultimately show ?thesis
    unfolding in_outputRegion_grid [OF assms(1-6)] tiles_done_def
    using assms(7,8) by auto
qed

lemma tiles_done_row:
  assumes "1 \<le> H"
  shows "tiles_done W H i (nChunks W) px py = tiles_done W H (i + 1) 0 px py"
proof -
  have "i * chunkLen H * 2 \<le> (i + 1) * chunkLen H * 2"
    using chunkLen_pos [OF assms] by (simp add: algebra_simps)
  then show ?thesis unfolding tiles_done_def by auto
qed

lemma tiles_done_start: "1 \<le> H \<Longrightarrow> tiles_done W H 0 0 px py = False"
  unfolding tiles_done_def by auto

lemma tiles_done_end: "tiles_done W H (nChunks H) 0 px py = covered W H px py"
  unfolding tiles_done_def covered_def by (auto simp: algebra_simps)

section \<open>The invariant of a pass\<close>

lemma pass_inv_tile:
  assumes inv: "pass_inv run w0 img outArr P i j v"
    and i: "0 \<le> i" "i < nChunks (shape1 img)" and j: "0 \<le> j" "j < nChunks (shape0 img)"
    and P: "tile_establishes run w0 img P"
  shows "case upscaleFrame_tile run img outArr (chunkLen (shape0 img)) (chunkLen (shape1 img)) i j v of
           (Inl e, v') \<Rightarrow> pass_error run (mem w0 ! buf img) img e
         | (Inr u, v') \<Rightarrow> pass_inv run w0 img outArr P i (j + 1) v'"
proof -
  let ?W = "shape0 img" and ?H = "shape1 img"
  let ?t = "gridTile ?W ?H i j"
  let ?d0 = "mem w0 ! buf img"
  have img: "rgba_image v img" and cv: "canvas_for v img outArr"
    and ao: "buf outArr = length (mem w0)" and ai: "buf img < length (mem w0)"
    and frame: "\<forall>a<length (mem w0). mem v ! a = mem w0 ! a"
    and pix: "\<And>px py c. canvas_fits ?W ?H \<Longrightarrow>
         0 \<le> px \<Longrightarrow> px < ?W * 2 \<Longrightarrow> 0 \<le> py \<Longrightarrow> py < ?H * 2 \<Longrightarrow> 0 \<le> c \<Longrightarrow> c < 4 \<Longrightarrow>
         (if tiles_done ?W ?H i j px py
          then P px py c (mem v ! buf outArr ! nat ((px * (?H * 2) + py) * 4 + c))
          else mem v ! buf outArr ! nat ((px * (?H * 2) + py) * 4 + c) = 0)"
    and hist: "\<And>i' j'. 0 \<le> i' \<Longrightarrow> 0 \<le> j' \<Longrightarrow> j' < nChunks ?W \<Longrightarrow> i' < i \<or> i' = i \<and> j' < j \<Longrightarrow>
         tile_ok run ?d0 img i' j'"
    using inv unfolding pass_inv_def by blast+
  have WH: "1 \<le> ?W" "1 \<le> ?H" and av: "buf img < length (mem v)"
    using img by (simp_all add: rgba_image_def)
  have aov: "buf outArr < length (mem v)" and ne: "buf outArr \<noteq> buf img"
    using cv by (simp_all add: canvas_for_def)
  have d0: "mem v ! buf img = ?d0" using frame ai by simp
  obtain x s' where run: "run (sess v) (tile_chunk (mem v ! buf img) img i j) = (x, s')"
    by (cases "run (sess v) (tile_chunk (mem v ! buf img) img i j)") auto
  show ?thesis
  proof (cases "no_result x")
    case True
    have "tile_fails run ?d0 img i j"
      unfolding tile_fails_def using run True d0 by auto
    then have "pass_error run ?d0 img TypeError"
      unfolding pass_error_def using i j by blast
    then show ?thesis
      unfolding tile_failure [where run = run, OF img i j run True] by simp
  next
    case False
    then obtain r where x: "x = Inr (Some r)"
      by (auto simp: no_result_def split: sum.splits option.splits)
    from tile_success [where run = run, OF img cv i j run [unfolded x]]
    obtain v' where res: "upscaleFrame_tile run img outArr (chunkLen ?W) (chunkLen ?H) i j v = (Inr (), v')"
      and len: "length (mem v') = length (mem v) + 2"
      and oth: "\<And>a. a < length (mem v) \<Longrightarrow> a \<noteq> buf outArr \<Longrightarrow> mem v' ! a = mem v ! a"
      and clen: "length (mem v' ! buf outArr) = length (mem v ! buf outArr)"
      and cpix: "\<And>px py c. canvas_fits ?W ?H \<Longrightarrow>
                 0 \<le> px \<Longrightarrow> px < ?W * 2 \<Longrightarrow> 0 \<le> py \<Longrightarrow> py < ?H * 2 \<Longrightarrow> 0 \<le> c \<Longrightarrow> c < 4 \<Longrightarrow>
                 mem v' ! buf outArr ! nat ((px * (?H * 2) + py) * 4 + c)
                   = (if in_outputRegion ?t px py
                      then (if c = 3 then pixel v img (px div 2) (py div 2) 3
                            else stitched_value r ?t px py c)
                      else mem v ! buf outArr ! nat ((px * (?H * 2) + py) * 4 + c))"
      by blast
    have src: "mem v' ! buf img = mem v ! buf img" using oth [OF av] ne by simp
    have 1: "rgba_image v' img"
      using img len src unfolding rgba_image_def by simp
    have 2: "canvas_for v' img outArr"
      using cv len clen unfolding canvas_for_def by simp
    have 3: "\<forall>a<length (mem w0). mem v' ! a = mem w0 ! a"
    proof (intro allI impI)
      fix a assume a: "a < length (mem w0)"
      then have "a < length (mem v)" "a \<noteq> buf outArr" using ao aov by simp_all
      then show "mem v' ! a = mem w0 ! a" using oth frame a by simp
    qed
    have pw: "pixel v img px py c = pixel w0 img px py c" for px py c
      using ai av d0 by (intro pixel_same_buffer) (simp add: buffer_at_def)
    have 4: "if tiles_done ?W ?H i (j + 1) px py
          then P px py c (mem v' ! buf outArr ! nat ((px * (?H * 2) + py) * 4 + c))
          else mem v' ! buf outArr ! nat ((px * (?H * 2) + py) * 4 + c) = 0"
      if fits: "canvas_fits ?W ?H"
        and p: "0 \<le> px" "px < ?W * 2" "0 \<le> py" "py < ?H * 2" "0 \<le> c" "c < 4" for px py c
    proof -
      define n where "n = nat ((px * (?H * 2) + py) * 4 + c)"
      note cp = cpix [OF fits p, folded n_def] and pp = pix [OF fits p, folded n_def]
      have "if tiles_done ?W ?H i (j + 1) px py
            then P px py c (mem v' ! buf outArr ! n) else mem v' ! buf outArr ! n = 0"
      proof (cases "in_outputRegion ?t px py")
        case True
        have "P px py c (if c = 3 then pixel w0 img (px div 2) (py div 2) 3
                         else stitched_value r ?t px py c)"
          using P [unfolded tile_establishes_def] i j run [unfolded x d0] True p(5,6) by blast
        then show ?thesis
          unfolding cp tiles_done_step [OF WH i j p(1,3)] using True by (auto simp: pw)
      next
        case False
        then show ?thesis
          unfolding cp tiles_done_step [OF WH i j p(1,3)] using pp by simp
      qed
      then show ?thesis unfolding n_def .
    qed
    have ok: "tile_ok run ?d0 img i j"
      unfolding tile_ok_def using run [unfolded x d0] by blast
    have 5: "tile_ok run ?d0 img i' j'"
      if "0 \<le> i'" "0 \<le> j'" "j' < nChunks ?W" "i' < i \<or> i' = i \<and> j' < j + 1" for i' j'
    proof (cases "i' = i \<and> j' = j")
      case True
      then show ?thesis using ok by simp
    next
      case False
      then have "i' < i \<or> i' = i \<and> j' < j" using that(4) by auto
      then show ?thesis using hist that(1-3) by blast
    qed
    have "pass_inv run w0 img outArr P i (j + 1) v'"
      unfolding pass_inv_def using 1 2 3 4 5 ao ai by blast
    then show ?thesis unfolding res by simp
  qed
qed

lemma pass_inv_next_row:
  assumes "1 \<le> shape1 img"
  shows "pass_inv run w0 img outArr P i (nChunks (shape0 img)) v = pass_inv run w0 img outArr P (i + 1) 0 v"
proof -
  have "(i' < i \<or> i' = i \<and> j' < nChunks (shape0 img)) = (i' < i + 1 \<or> i' = i + 1 \<and> j' < 0)"
    if "0 \<le> j'" "j' < nChunks (shape0 img)" for i' j'
    using that by auto
  then show ?thesis
    unfolding pass_inv_def tiles_done_row [OF assms] by (intro conj_cong refl) blast
qed

lemma pass_inv_row:
  assumes inv: "pass_inv run w0 img outArr P i 0 v"
    and i: "0 \<le> i" "i < nChunks (shape1 img)"
    and P: "tile_establishes run w0 img P"
  shows "case for_loop 0 (nChunks (shape0 img))
                (\<lambda>j u'. upscaleFrame_tile run img outArr (chunkLen (shape0 img))
                            (chunkLen (shape1 img)) i j) u v of
           (Inl e, v') \<Rightarrow> pass_error run (mem w0 ! buf img) img e
         | (Inr u', v') \<Rightarrow> pass_inv run w0 img outArr P (i + 1) 0 v'"
proof -
  have WH: "1 \<le> shape0 img" "1 \<le> shape1 img"
    using inv by (simp_all add: pass_inv_def rgba_image_def)
  have n: "0 \<le> nChunks (shape0 img)" using nChunks_pos [OF WH(1)] by simp
  have "case for_loop 0 (nChunks (shape0 img))
                (\<lambda>j u'. upscaleFrame_tile run img outArr (chunkLen (shape0 img))
                            (chunkLen (shape1 img)) i j) u v of
           (Inl e, v') \<Rightarrow> pass_error run (mem w0 ! buf img) img e
         | (Inr u', v') \<Rightarrow> pass_inv run w0 img outArr P i (nChunks (shape0 img)) v'"
    by (rule for_loop_rule [where I = "\<lambda>j u v. pass_inv run w0 img outArr P i j v", OF n inv])
       (rule pass_inv_tile [OF _ i _ _ P])
  then show ?thesis
    unfolding pass_inv_next_row [OF WH(2)] .
qed

lemma pass_inv_start:
  assumes img: "rgba_image w img"
  shows "pass_inv run w img (ndarray_new (length (mem w)) (shape0 img * 2, shape1 img * 2, 4)) P 0 0
           (w\<lparr>mem := mem w @ [replicate (nat (shape0 img * 2 * (shape1 img * 2) * 4)) 0]\<rparr>)"
proof -
  let ?W = "shape0 img" and ?H = "shape1 img"
  let ?out = "ndarray_new (length (mem w)) (?W * 2, ?H * 2, 4)"
  let ?w1 = "w\<lparr>mem := mem w @ [replicate (nat (?W * 2 * (?H * 2) * 4)) 0]\<rparr>"
  have WH: "1 \<le> ?W" "1 \<le> ?H" and a: "buf img < length (mem w)"
    using img by (simp_all add: rgba_image_def)
  have "0 \<le> ?W * ?H" using WH by simp
  then have nn: "0 \<le> ?W * 2 * (?H * 2) * 4" by simp
  have b: "buf ?out = length (mem w)" by (simp add: ndarray_new_def)
  have 1: "rgba_image ?w1 img"
    using img by (simp add: rgba_image_def nth_append)
  have 2: "canvas_for ?w1 img ?out"
    using a nn by (simp add: canvas_for_def ndarray_new_def)
  have 3: "\<forall>a<length (mem w). mem ?w1 ! a = mem w ! a"
    by (simp add: nth_append)
  have 4: "if tiles_done ?W ?H 0 0 px py
          then P px py c (mem ?w1 ! buf ?out ! nat ((px * (?H * 2) + py) * 4 + c))
          else mem ?w1 ! buf ?out ! nat ((px * (?H * 2) + py) * 4 + c) = 0"
    if p: "0 \<le> px" "px < ?W * 2" "0 \<le> py" "py < ?H * 2" "0 \<le> c" "c < 4" for px py c
  proof -
    define n where "n = nat ((px * (?H * 2) + py) * 4 + c)"
    have "n < nat (?W * 2 * (?H * 2) * 4)"
      unfolding n_def using row_major_bounds [OF p] by simp
    then have "mem ?w1 ! buf ?out ! n = 0" by (simp add: b)
    then show ?thesis
      unfolding n_def [symmetric] tiles_done_start [OF WH(2)] by simp
  qed
  have 5: "\<forall>i' j'. 0 \<le> i' \<and> 0 \<le> j' \<and> j' < nChunks ?W \<and> (i' < 0 \<or> i' = 0 \<and> j' < 0) \<longrightarrow>
             tile_ok run (mem w ! buf img) img i' j'"
    by auto
  show ?thesis
    unfolding pass_inv_def using 1 2 3 4 5 a b by blast
qed

lemma upscaleFrame_pass:
  assumes img: "rgba_image w img" and P: "tile_establishes run w img P"
  shows "case upscaleFrame run img w of
           (Inl e, w') \<Rightarrow> pass_error run (mem w ! buf img) img e
         | (Inr out, w') \<Rightarrow>
             out = ndarray_new (length (mem w)) (shape0 img * 2, shape1 img * 2, 4) \<and>
             pass_inv run w img out P (nChunks (shape1 img)) 0 w'"
proof -
  let ?W = "shape0 img" and ?H = "shape1 img"
  let ?out = "ndarray_new (length (mem w)) (?W * 2, ?H * 2, 4)"
  let ?w1 = "w\<lparr>mem := mem w @ [replicate (nat (?W * 2 * (?H * 2) * 4)) 0]\<rparr>"
  have WH: "1 \<le> ?W" "1 \<le> ?H" using img by (simp_all add: rgba_image_def)
  have "0 \<le> ?W * ?H" using WH by simp
  then have nn: "\<not> ?W * 2 * (?H * 2) * 4 < 0" by simp
  have n: "0 \<le> nChunks ?H" using nChunks_pos [OF WH(2)] by simp
  have loop: "case for_loop 0 (nChunks ?H)
                (\<lambda>i u. for_loop 0 (nChunks ?W)
                          (\<lambda>j u'. upscaleFrame_tile run img ?out (chunkLen ?W) (chunkLen ?H) i j) u)
                () ?w1 of
           (Inl e, v') \<Rightarrow> pass_error run (mem w ! buf img) img e
         | (Inr u', v') \<Rightarrow> pass_inv run w img ?out P (nChunks ?H) 0 v'"
    by (rule for_loop_rule [where I = "\<lambda>i u v. pass_inv run w img ?out P i 0 v",
          OF n pass_inv_start [OF img]])
       (rule pass_inv_row [OF _ _ _ P])
  show ?thesis
    using loop nn
    by (simp add: upscaleFrame_def Let_def new_Uint8Array_def split: prod.splits sum.splits)
qed

section \<open>The result of a pass\<close>

lemma tile_establishes_trivial: "tile_establishes run w img (\<lambda>px py c b. True)"
  by (simp add: tile_establishes_def)

lemma rgba_image_canvas:
  assumes "rgba_image w img" and "canvas_for w img out"
  shows "rgba_image w out"
proof -
  have o: "out = ndarray_new (buf out) (shape0 img * 2, shape1 img * 2, 4)"
    using assms(2) by (simp add: canvas_for_def)
  have s: "shape0 out = shape0 img * 2" "shape1 out = shape1 img * 2" "shape2 out = 4"
    "stride0 out = shape1 img * 2 * 4" "stride1 out = 4" "stride2 out = 1" "offset out = 0"
    by (subst o, simp add: ndarray_new_def)+
  show ?thesis
    using assms unfolding rgba_image_def canvas_for_def s by simp
qed

lemma upscaleFrame_result:
  assumes img: "rgba_image w img" and P: "tile_establishes run w img P"
    and res: "upscaleFrame run img w = (Inr out, w')"
  shows "out = ndarray_new (length (mem w)) (shape0 img * 2, shape1 img * 2, 4)"
    and "rgba_image w' out" and "rgba_image w' img"
    and "\<forall>a<length (mem w). mem w' ! a = mem w ! a"
    and "\<And>px py c. canvas_fits (shape0 img) (shape1 img) \<Longrightarrow>
           0 \<le> px \<Longrightarrow> px < shape0 img * 2 \<Longrightarrow> 0 \<le> py \<Longrightarrow> py < shape1 img * 2 \<Longrightarrow>
           0 \<le> c \<Longrightarrow> c < 4 \<Longrightarrow>
           (if covered (shape0 img) (shape1 img) px py then P px py c (pixel w' out px py c)
            else pixel w' out px py c = 0)"
    and "\<And>i j. 0 \<le> i \<Longrightarrow> i < nChunks (shape1 img) \<Longrightarrow> 0 \<le> j \<Longrightarrow> j < nChunks (shape0 img) \<Longrightarrow>
           tile_ok run (mem w ! buf img) img i j"
proof -
  have o: "out = ndarray_new (length (mem w)) (shape0 img * 2, shape1 img * 2, 4)"
    and inv: "pass_inv run w img out P (nChunks (shape1 img)) 0 w'"
    using upscaleFrame_pass [OF img P] res by auto
  show "out = ndarray_new (length (mem w)) (shape0 img * 2, shape1 img * 2, 4)" by (rule o)
  have i': "rgba_image w' img" and cv: "canvas_for w' img out"
    using inv by (simp_all add: pass_inv_def)
  show "rgba_image w' img" by (rule i')
  show "rgba_image w' out" by (rule rgba_image_canvas [OF i' cv])
  show "\<forall>a<length (mem w). mem w' ! a = mem w ! a"
    using inv unfolding pass_inv_def by blast
  show "if covered (shape0 img) (shape1 img) px py then P px py c (pixel w' out px py c)
        else pixel w' out px py c = 0"
    if fits: "canvas_fits (shape0 img) (shape1 img)"
      and p: "0 \<le> px" "px < shape0 img * 2" "0 \<le> py" "py < shape1 img * 2" "0 \<le> c" "c < 4"
    for px py c
  proof -
    have "if tiles_done (shape0 img) (shape1 img) (nChunks (shape1 img)) 0 px py
          then P px py c (mem w' ! buf out ! nat ((px * (shape1 img * 2) + py) * 4 + c))
          else mem w' ! buf out ! nat ((px * (shape1 img * 2) + py) * 4 + c) = 0"
      using inv fits p unfolding pass_inv_def by blast
    then show ?thesis
      unfolding tiles_done_end pixel_canvas [OF cv p] .
  qed
  show "tile_ok run (mem w ! buf img) img i j"
    if "0 \<le> i" "i < nChunks (shape1 img)" "0 \<le> j" "j < nChunks (shape0 img)" for i j
    using inv that unfolding pass_inv_def by blast
qed

lemma upscaleFrame_error:
  assumes img: "rgba_image w img" and res: "upscaleFrame run img w = (Inl e, w')"
  shows "pass_error run (mem w ! buf img) img e"
  using upscaleFrame_pass [OF img tile_establishes_trivial, of run] res by simp

text \<open>Inside an image, \<^verbatim>\<open>get\<close> returns the byte.\<close>

lemma nd_get_image:
  assumes "rgba_image w a" and "0 \<le> px" "px < shape0 a" "0 \<le> py" "py < shape1 a" "0 \<le> c" "c < 4"
  shows "nd_get w a px py c = Some (pixel w a px py c)"
proof -
  have i: "nd_index a px py c = (px * shape1 a + py) * 4 + c"
    using assms(1) by (simp add: rgba_image_def nd_index_def algebra_simps)
  show ?thesis
    using row_major_bounds [OF assms(2-7)] assms(1)
    by (simp add: pixel_def nd_get_def i rgba_image_def buffer_at_def buf_get_def to_uint8_def)
qed

lemma upscaleFrame_total:
  assumes img: "rgba_image w img"
    and ok: "\<And>i j. 0 \<le> i \<Longrightarrow> i < nChunks (shape1 img) \<Longrightarrow> 0 \<le> j \<Longrightarrow> j < nChunks (shape0 img) \<Longrightarrow>
               \<not> tile_fails run (mem w ! buf img) img i j"
  shows "\<exists>out w'. upscaleFrame run img w = (Inr out, w')"
proof -
  obtain x w' where r: "upscaleFrame run img w = (x, w')"
    by (cases "upscaleFrame run img w") auto
  show ?thesis
  proof (cases x)
    case (Inl e)
    then have "pass_error run (mem w ! buf img) img e"
      using upscaleFrame_error [OF img] r by simp
    then show ?thesis using ok unfolding pass_error_def by blast
  next
    case (Inr out)
    then show ?thesis using r by simp
  qed
qed

lemma upscaleFrame_aborts:
  assumes img: "rgba_image w img"
    and t: "0 \<le> i" "i < nChunks (shape1 img)" "0 \<le> j" "j < nChunks (shape0 img)"
    and no: "\<not> tile_ok run (mem w ! buf img) img i j"
  shows "fst (upscaleFrame run img w) = Inl TypeError"
proof -
  obtain x w' where r: "upscaleFrame run img w = (x, w')"
    by (cases "upscaleFrame run img w") auto
  show ?thesis
  proof (cases x)
    case (Inl e)
    then have "pass_error run (mem w ! buf img) img e"
      using upscaleFrame_error [OF img] r by simp
    then show ?thesis using r Inl unfolding pass_error_def by simp
  next
    case (Inr out)
    then have "tile_ok run (mem w ! buf img) img i j"
      using upscaleFrame_result(6) [OF img tile_establishes_trivial _ t, of run] r by simp
    then show ?thesis using no by simp
  qed
qed

lemma covered_in_canvas:
  assumes "1 \<le> W" and "1 \<le> H" and "covered W H px py"
  shows "0 \<le> px" "px < W * 2" "0 \<le> py" "py < H * 2"
  using assms(3) grid_within [OF assms(1)] grid_within [OF assms(2)]
  unfolding covered_def by simp_all

lemma session_facts:
  "\<not> tile_fails doubling_session d img i j" "\<not> tile_fails misshapen_session d img i j"
  "\<not> tile_ok failing_session d img i j"
  by (simp_all add: tile_fails_def tile_ok_def doubling_session_def misshapen_session_def
      failing_session_def no_result_def)

section \<open>The alpha channel\<close>

text \<open>
  C2, as amended: after one pass of \<^verbatim>\<open>upscaleFrame\<close> that returns, on a \<open>W \<times> H\<close> RGBA
  image whose canvas holds at most \<open>2^31\<close> bytes (\<open>2W * 2H * 4 \<le> 2^31\<close>), for every output
  pixel \<open>(x, y)\<close> of the part of the canvas that the tiles of the grid are written to
  (\<open>0 \<le> x < 2 * nChunksW * chunkW\<close>, \<open>0 \<le> y < 2 * nChunksH * chunkH\<close>), the alpha of the
  output is the alpha of the source at \<open>(x div 2, y div 2)\<close>, whatever the buffers are
  that the inference returned. (On a larger canvas the offset of the output slice of a
  tile can exceed the 32 bits that ndarray keeps of it.)
\<close>

theorem alpha_law_covered:
  assumes "rgba_image w img" and "upscaleFrame run img w = (Inr out, w')"
    and "covered (shape0 img) (shape1 img) x y"
    and "shape0 img * 2 * (shape1 img * 2) * 4 \<le> 2 ^ 31"
  shows "nd_get w' out x y 3 = nd_get w img (x div 2) (y div 2) 3 \<and>
         nd_get w img (x div 2) (y div 2) 3 \<noteq> None"
proof -
  let ?P = "\<lambda>px py c b. c = (3::int) \<longrightarrow> b = pixel w img (px div 2) (py div 2) 3"
  have WH: "1 \<le> shape0 img" "1 \<le> shape1 img"
    using assms(1) by (simp_all add: rgba_image_def)
  note p = covered_in_canvas [OF WH assms(3)]
  have P: "tile_establishes run w img ?P"
    by (simp add: tile_establishes_def)
  note r = upscaleFrame_result [OF assms(1) P assms(2)]
  have fits: "canvas_fits (shape0 img) (shape1 img)"
    using assms(4) by (simp add: canvas_fits_def)
  have o: "shape0 out = shape0 img * 2" "shape1 out = shape1 img * 2"
    by (simp_all add: r(1) ndarray_new_def)
  have "pixel w' out x y 3 = pixel w img (x div 2) (y div 2) 3"
    using r(5) [OF fits p, of 3] assms(3) by simp
  moreover have "nd_get w' out x y 3 = Some (pixel w' out x y 3)"
    using p by (intro nd_get_image [OF r(2)]) (simp_all add: o)
  moreover have "nd_get w img (x div 2) (y div 2) 3 = Some (pixel w img (x div 2) (y div 2) 3)"
    using p by (intro nd_get_image [OF assms(1)]) simp_all
  ultimately show ?thesis by simp
qed

lemma small_image:
  "rgba_image \<lparr>mem = [[10, 20, 30, 255]], sess = ()\<rparr> (ndarray_new 0 (1, 1, 4))"
  by (simp add: rgba_image_def ndarray_new_def)

lemma wide_image:
  "rgba_image \<lparr>mem = [replicate 4100 255], sess = ()\<rparr> (ndarray_new 0 (1025, 1, 4))"
  by (simp add: rgba_image_def ndarray_new_def)

lemma grid_1: "nChunks 1 = 1" "chunkLen 1 = 1"
  by (simp_all add: nChunks_def chunkLen_def CHUNK_SIZE_def)

lemma grid_1025: "nChunks 1025 = 2" "chunkLen 1025 = 512"
  by (simp_all add: nChunks_def chunkLen_def CHUNK_SIZE_def)

theorem alpha_law_covered_witness:
  "\<exists>out w'. rgba_image \<lparr>mem = [[10, 20, 30, 255]], sess = ()\<rparr> (ndarray_new 0 (1, 1, 4)) \<and>
     upscaleFrame misshapen_session (ndarray_new 0 (1, 1, 4)) \<lparr>mem = [[10, 20, 30, 255]], sess = ()\<rparr>
       = (Inr out, w') \<and>
     covered 1 1 1 1 \<and> (1::int) * 2 * (1 * 2) * 4 \<le> 2 ^ 31 \<and> nd_get w' out 1 1 3 = Some 255"
proof -
  let ?w = "\<lparr>mem = [[10, 20, 30, 255]], sess = ()\<rparr> :: unit world"
  let ?img = "ndarray_new 0 (1, 1, 4)"
  obtain out w' where r: "upscaleFrame misshapen_session ?img ?w = (Inr out, w')"
    using upscaleFrame_total [OF small_image, of misshapen_session] session_facts(2) by blast
  have s: "shape0 ?img = 1" "shape1 ?img = 1" by (simp_all add: ndarray_new_def)
  have c: "covered (shape0 ?img) (shape1 ?img) 1 1"
    by (simp add: s covered_def grid_1)
  have z: "shape0 ?img * 2 * (shape1 ?img * 2) * 4 \<le> 2 ^ 31"
    by (simp add: s)
  have "nd_get ?w ?img (1 div 2) (1 div 2) 3 = Some 255"
    by (simp add: nd_get_def nd_index_def ndarray_new_def buffer_at_def buf_get_def)
  then have "nd_get w' out 1 1 3 = Some 255"
    using alpha_law_covered [OF small_image r c z] by simp
  then show ?thesis using small_image r c by (auto simp: s)
qed

text \<open>
  C2 as it is stated fails in two ways. With a session that throws, the pass over a
  \<open>1 \<times> 1\<close> image ends with a \<^verbatim>\<open>TypeError\<close> and there is no output. With the
  identity-doubling session, the pass over the \<open>1025 \<times> 1\<close> image whose bytes are all 255
  returns a canvas whose alpha at \<open>(2048, 0)\<close> is 0, while the alpha of the source at
  \<open>(1024, 0)\<close> is 255.
\<close>

theorem alpha_law_counterexample:
  "fst (upscaleFrame failing_session (ndarray_new 0 (1, 1, 4)) \<lparr>mem = [[10, 20, 30, 255]], sess = ()\<rparr>)
     = Inl TypeError \<and>
   fst (upscaleFrame doubling_session (ndarray_new 0 (1025, 1, 4))
          \<lparr>mem = [replicate 4100 255], sess = ()\<rparr>)
     = Inr (ndarray_new 1 (2050, 2, 4)) \<and>
   nd_get (snd (upscaleFrame doubling_session (ndarray_new 0 (1025, 1, 4))
                  \<lparr>mem = [replicate 4100 255], sess = ()\<rparr>))
          (ndarray_new 1 (2050, 2, 4)) 2048 0 3 = Some 0 \<and>
   nd_get \<lparr>mem = [replicate 4100 255], sess = ()\<rparr> (ndarray_new 0 (1025, 1, 4))
          (2048 div 2) (0 div 2) 3 = Some 255"
proof -
  let ?w = "\<lparr>mem = [replicate 4100 255], sess = ()\<rparr> :: unit world"
  let ?img = "ndarray_new 0 (1025, 1, 4)"
  have s1: "shape0 (ndarray_new 0 (1, 1, 4)) = 1" "shape1 (ndarray_new 0 (1, 1, 4)) = 1"
    and s: "shape0 ?img = 1025" "shape1 ?img = 1"
    by (simp_all add: ndarray_new_def)
  have 1: "fst (upscaleFrame failing_session (ndarray_new 0 (1, 1, 4))
                  \<lparr>mem = [[10, 20, 30, 255]], sess = ()\<rparr>) = Inl TypeError"
    by (rule upscaleFrame_aborts [OF small_image, of 0 0])
       (simp_all add: s1 grid_1 session_facts)
  obtain out w' where r: "upscaleFrame doubling_session ?img ?w = (Inr out, w')"
    using upscaleFrame_total [OF wide_image, of doubling_session] session_facts(1) by blast
  note f = upscaleFrame_result [OF wide_image tile_establishes_trivial r]
  have o: "out = ndarray_new 1 (2050, 2, 4)" using f(1) by (simp add: s)
  have "\<not> covered (shape0 ?img) (shape1 ?img) 2048 0"
    by (simp add: s covered_def grid_1025)
  moreover have "canvas_fits (shape0 ?img) (shape1 ?img)"
    by (simp add: s canvas_fits_def)
  ultimately have "pixel w' out 2048 0 3 = 0"
    using f(5) [of 2048 0 3] by (simp add: s)
  moreover have "nd_get w' out 2048 0 3 = Some (pixel w' out 2048 0 3)"
    by (rule nd_get_image [OF f(2)]) (simp_all add: o ndarray_new_def)
  ultimately have 2: "nd_get w' out 2048 0 3 = Some 0" by simp
  have 3: "nd_get ?w ?img (2048 div 2) (0 div 2) 3 = Some 255"
    by (simp add: nd_get_def nd_index_def ndarray_new_def buffer_at_def buf_get_def)
  show ?thesis using 1 2 3 r o by simp
qed

text \<open>
  Beyond \<open>2^31\<close> bytes the law is lost. For a \<open>2048 \<times> 131072\<close> image the canvas holds
  \<open>2^32\<close> bytes, and the output slice of the tile of row 0 and column 1 starts at its
  byte \<open>2^31\<close>: the view stores the offset \<open>-2^31\<close>, every index of the slice is negative,
  and what is written through it is dropped.
\<close>

lemma large_canvas_slice:
  "gridTile 2048 131072 0 1
     = \<lparr>t_x = 1024, t_y = 0, t_yStart = 0, t_inH = 1088, t_outH = 2048,
        t_xStart = 992, t_inW = 1056, t_outW = 2048\<rparr>"
  "offset (outSliceOf (ndarray_new a (4096, 262144, 4)) (gridTile 2048 131072 0 1)) = - 2147483648"
  by (simp_all add: outSliceOf_def hi_def lo_def to_int32_def ndarray_new_def gridTile_def
      tileOf_def chunkLen_def nChunks_def CHUNK_SIZE_def PAD_SIZE_def Let_def)

lemma large_canvas_writes_dropped:
  assumes "0 \<le> i" "i < 2048" "0 \<le> j" "j < 2048" "0 \<le> k" "k < 4"
  shows "nd_index (outSliceOf (ndarray_new a (4096, 262144, 4)) (gridTile 2048 131072 0 1)) i j k < 0"
    and "nd_set w (outSliceOf (ndarray_new a (4096, 262144, 4)) (gridTile 2048 131072 0 1)) i j k v
         = w"
proof -
  let ?s = "outSliceOf (ndarray_new a (4096, 262144, 4)) (gridTile 2048 131072 0 1)"
  have st: "stride0 ?s = 1048576" "stride1 ?s = 4" "stride2 ?s = 1" "buf ?s = a"
    by (simp_all add: outSliceOf_def ndarray_new_def)
  show neg: "nd_index ?s i j k < 0"
    unfolding nd_index_def large_canvas_slice(2) st using assms by simp
  show "nd_set w ?s i j k v = w"
    using neg by (simp add: nd_set_def buf_set_def st buffer_at_def list_update_beyond)
qed

section \<open>Purity of the chunk extraction\<close>

text \<open>
  C9: chunk extraction is pure and deterministic. Extracting a region (lines 93 to 95)
  gives a new contiguous buffer that holds the bytes of the region of the source in
  row-major order; the bytes depend on nothing but the bytes of the source and the
  region, so that extracting it again, from any state in which the source holds the same
  bytes, gives a byte-identical buffer; and the extraction changes no buffer that existed
  before, the source among them, nor the state of the session. The extents of the region
  are below \<open>2^31\<close>, where \<^verbatim>\<open>hi\<close> keeps them as they are; those of the input region of
  a tile are at most \<open>CHUNK_SIZE + 2 * PAD_SIZE\<close> (lemma \<open>tile_extents_small\<close>).
\<close>

theorem extractChunk_pure_deterministic:
  assumes "buf imageArray < length (mem w)" and "buf imageArray < length (mem w')"
    and "mem w' ! buf imageArray = mem w ! buf imageArray"
    and "0 \<le> t_inW t" and "0 < t_inH t"
    and "t_inW t < 2 ^ 31" and "t_inH t < 2 ^ 31"
  shows "\<exists>inSlice subArr subArr' w1 w1'.
           extractChunk imageArray t w = (Inr (inSlice, subArr), w1) \<and>
           extractChunk imageArray t w' = (Inr (inSlice, subArr'), w1') \<and>
           mem w1 ! buf subArr = region_bytes (mem w ! buf imageArray) inSlice \<and>
           mem w1' ! buf subArr' = mem w1 ! buf subArr \<and>
           buf subArr = length (mem w) \<and> offset subArr = 0 \<and>
           shape0 subArr = t_inW t \<and> shape1 subArr = t_inH t \<and> shape2 subArr = 4 \<and>
           stride0 subArr = t_inH t * 4 \<and> stride1 subArr = 4 \<and> stride2 subArr = 1 \<and>
           int (length (mem w1 ! buf subArr)) = t_inW t * t_inH t * 4 \<and>
           length (mem w1) = length (mem w) + 1 \<and>
           (\<forall>a<length (mem w). mem w1 ! a = mem w ! a) \<and>
           sess w1 = sess w"
proof -
  let ?inSlice = "hi (lo imageArray (t_xStart t) (t_yStart t) 0) (t_inW t) (t_inH t) 4"
  have nn: "0 \<le> t_inW t * t_inH t * 4"
    using assms(4,5) by simp
  have sm: "t_inW t < 2147483648" "t_inH t < 2147483648" "0 \<le> t_inH t"
    using assms(5,6,7) by simp_all
  have len: "int (length (region_bytes (mem w ! buf imageArray) ?inSlice))
           = t_inW t * t_inH t * 4"
    using nn by (simp add: region_bytes_def hi_shape [OF assms(4) sm(1,3,2)])
  show ?thesis
    unfolding extractChunk_result [OF assms(1,4,5) sm(1,2)]
      extractChunk_result [OF assms(2,4,5) sm(1,2)]
    using len by (simp add: ndarray_new_def assms(3) nth_append)
qed

theorem extractChunk_pure_deterministic_witness:
  "\<exists>inSlice subArr subArr' w1 w1'.
     extractChunk (ndarray_new 0 (1, 1, 4)) (gridTile 1 1 0 0) \<lparr>mem = [[1, 2, 3, 4]], sess = ()\<rparr>
       = (Inr (inSlice, subArr), w1) \<and>
     extractChunk (ndarray_new 0 (1, 1, 4)) (gridTile 1 1 0 0)
       \<lparr>mem = [[1, 2, 3, 4], [9]], sess = ()\<rparr> = (Inr (inSlice, subArr'), w1') \<and>
     mem w1 ! buf subArr = [1, 2, 3, 4] \<and> mem w1' ! buf subArr' = [1, 2, 3, 4] \<and>
     mem w1 ! 0 = [1, 2, 3, 4]"
proof -
  let ?w = "\<lparr>mem = [[1, 2, 3, 4]], sess = ()\<rparr> :: unit world"
  let ?w' = "\<lparr>mem = [[1, 2, 3, 4], [9]], sess = ()\<rparr> :: unit world"
  let ?img = "ndarray_new 0 (1, 1, 4)"
  have t: "t_inW (gridTile 1 1 0 0) = 1" "t_inH (gridTile 1 1 0 0) = 1"
    "t_xStart (gridTile 1 1 0 0) = 0" "t_yStart (gridTile 1 1 0 0) = 0"
    by (simp_all add: gridTile_def tileOf_def chunkLen_def nChunks_def CHUNK_SIZE_def
        PAD_SIZE_def Let_def)
  have h: "buf ?img < length (mem ?w)" "buf ?img < length (mem ?w')"
    "mem ?w' ! buf ?img = mem ?w ! buf ?img"
    "0 \<le> t_inW (gridTile 1 1 0 0)" "0 < t_inH (gridTile 1 1 0 0)"
    "t_inW (gridTile 1 1 0 0) < 2 ^ 31" "t_inH (gridTile 1 1 0 0) < 2 ^ 31"
    by (simp_all add: ndarray_new_def t)
  have sm: "t_inW (gridTile 1 1 0 0) < 2147483648" "t_inH (gridTile 1 1 0 0) < 2147483648"
    by (simp_all add: t)
  have rb: "region_bytes [1, 2, 3, 4] (hi (lo ?img 0 0 0) 1 1 4) = [1, 2, 3, 4]"
    by (simp add: region_bytes_def hi_def lo_def to_int32_def ndarray_new_def nd_index_def
        buf_get_def to_uint8_def upt_rec)
  from extractChunk_pure_deterministic [OF h]
  obtain inSlice subArr subArr' w1 w1' where
    e: "extractChunk ?img (gridTile 1 1 0 0) ?w = (Inr (inSlice, subArr), w1)"
      "extractChunk ?img (gridTile 1 1 0 0) ?w' = (Inr (inSlice, subArr'), w1')"
      "mem w1 ! buf subArr = region_bytes (mem ?w ! buf ?img) inSlice"
      "mem w1' ! buf subArr' = mem w1 ! buf subArr"
      "\<forall>a<length (mem ?w). mem w1 ! a = mem ?w ! a"
    by blast
  have "inSlice = hi (lo ?img 0 0 0) 1 1 4"
    using e(1) unfolding extractChunk_result [OF h(1,4,5) sm] by (simp add: t)
  then have "mem w1 ! buf subArr = [1, 2, 3, 4]"
    using e(3) rb by (simp add: ndarray_new_def)
  moreover have "mem w1 ! 0 = [1, 2, 3, 4]" using e(5) by simp
  ultimately show ?thesis using e(1,2,4) by auto
qed

section \<open>Several passes\<close>

text \<open>
  C3: for every \<open>W \<times> H\<close> RGBA image with \<open>W, H \<ge> 1\<close> and every \<open>N \<ge> 0\<close>,
  \<^verbatim>\<open>multiUpscale\<close> returns an array of dimensions \<open>(W * 2^N, H * 2^N, 4)\<close> on a buffer
  of that many bytes, and for \<open>N = 0\<close> it returns the input as it is, in the state it
  was called in. It returns whenever the session returns a result for each call; the only
  other outcome is the \<^verbatim>\<open>TypeError\<close> after a call for which the session returned none.
\<close>

theorem multiUpscale_dimensions:
  assumes "rgba_image w img"
  shows "multiUpscale run img 0 w = (Inr img, w) \<and>
         (case multiUpscale run img N w of
            (Inr out, w') \<Rightarrow>
              shape0 out = shape0 img * 2 ^ N \<and> shape1 out = shape1 img * 2 ^ N \<and> shape2 out = 4 \<and>
              buf out < length (mem w') \<and>
              int (length (mem w' ! buf out)) = shape0 img * 2 ^ N * (shape1 img * 2 ^ N) * 4
          | (Inl e, w') \<Rightarrow> e = TypeError \<and> (\<exists>s0 t x s1. run s0 t = (x, s1) \<and> no_result x))"
proof -
  let ?I = "\<lambda>k out v. 0 \<le> k \<and> rgba_image v out \<and> shape0 out = shape0 img * 2 ^ nat k \<and>
                       shape1 out = shape1 img * 2 ^ nat k"
  let ?E = "\<lambda>e (v :: 'a world). e = TypeError \<and> (\<exists>s0 t x s1. run s0 t = (x, s1) \<and> no_result x)"
  have step: "case upscaleFrame run a v of
                (Inl e, v') \<Rightarrow> ?E e v'
              | (Inr a', v') \<Rightarrow> ?I (k + 1) a' v'"
    if "0 \<le> k" "?I k a v" for k a v
  proof -
    have a: "rgba_image v a" using that(2) by simp
    obtain x v' where r: "upscaleFrame run a v = (x, v')"
      by (cases "upscaleFrame run a v") auto
    show ?thesis
    proof (cases x)
      case (Inl e)
      then have "pass_error run (mem v ! buf a) a e"
        using upscaleFrame_error [OF a] r by simp
      then obtain i j s0 x' s1 where "e = TypeError"
        "run s0 (tile_chunk (mem v ! buf a) a i j) = (x', s1)" "no_result x'"
        unfolding pass_error_def tile_fails_def by blast
      then have "?E e v'" by blast
      then show ?thesis unfolding r Inl by simp
    next
      case (Inr a')
      note f = upscaleFrame_result(1,2) [OF a tile_establishes_trivial r [unfolded Inr]]
      have "nat (k + 1) = Suc (nat k)" using that(1) by simp
      then show ?thesis
        unfolding r Inr using f that by (simp add: ndarray_new_def)
    qed
  qed
  have "case for_loop 0 (int N) (\<lambda>s outArr. upscaleFrame run outArr) img w of
          (Inl e, w') \<Rightarrow> ?E e w'
        | (Inr out, w') \<Rightarrow> ?I (int N) out w'"
    by (rule for_loop_rule [where I = ?I and E = ?E]) (use assms step in simp_all)
  then have "case multiUpscale run img N w of
          (Inl e, w') \<Rightarrow> ?E e w'
        | (Inr out, w') \<Rightarrow>
              shape0 out = shape0 img * 2 ^ N \<and> shape1 out = shape1 img * 2 ^ N \<and> shape2 out = 4 \<and>
              buf out < length (mem w') \<and>
              int (length (mem w' ! buf out)) = shape0 img * 2 ^ N * (shape1 img * 2 ^ N) * 4"
    unfolding multiUpscale_def
    by (auto simp: rgba_image_def split: prod.splits sum.splits)
  moreover have "multiUpscale run img 0 w = (Inr img, w)"
    by (simp add: multiUpscale_def for_loop.simps)
  ultimately show ?thesis
    by (auto split: prod.splits sum.splits)
qed

theorem multiUpscale_dimensions_witness:
  "rgba_image \<lparr>mem = [[10, 20, 30, 255]], sess = ()\<rparr> (ndarray_new 0 (1, 1, 4)) \<and>
   (\<exists>out w'. multiUpscale doubling_session (ndarray_new 0 (1, 1, 4)) 3
               \<lparr>mem = [[10, 20, 30, 255]], sess = ()\<rparr> = (Inr out, w') \<and>
             shape0 out = 8 \<and> shape1 out = 8 \<and> shape2 out = 4 \<and>
             length (mem w' ! buf out) = 256)"
proof -
  let ?w = "\<lparr>mem = [[10, 20, 30, 255]], sess = ()\<rparr> :: unit world"
  let ?img = "ndarray_new 0 (1, 1, 4)"
  have never: "\<not> (\<exists>s0 t x s1. doubling_session s0 t = (x, s1) \<and> no_result x)"
    by (auto simp: doubling_session_def no_result_def)
  obtain x w' where r: "multiUpscale doubling_session ?img 3 ?w = (x, w')"
    by (cases "multiUpscale doubling_session ?img 3 ?w") auto
  have s: "shape0 ?img = 1" "shape1 ?img = 1" by (simp_all add: ndarray_new_def)
  show ?thesis
  proof (cases x)
    case (Inl e)
    then show ?thesis
      using multiUpscale_dimensions [OF small_image, of doubling_session 3] never r by simp
  next
    case (Inr out)
    then show ?thesis
      using multiUpscale_dimensions [OF small_image, of doubling_session 3] r small_image
      by (simp add: s)
  qed
qed

section \<open>What the stitching step writes\<close>

text \<open>
  C7, at a \<open>1 \<times> 1\<close> image with alpha 255 and an inference result of shape \<open>(2, 2, 4)\<close>
  whose pixels are \<open>(1, 2, 3, 9)\<close>: the assignment of line 103 (``Copy RGB channels'')
  writes all four channels of the crop, since \<^verbatim>\<open>pick(null, null, [0, 1, 2])\<close> keeps the
  channel axis whole. When the stitching step of lines 98 to 103 is done, the alpha of
  the canvas at \<open>(0, 0)\<close> is the 9 of the inference result; it was 0 before.
  (\<^verbatim>\<open>processAlphaChannel\<close> then overwrites it with the 255 of the source.)
\<close>

theorem stitch_writes_alpha_of_result:
  "pixel \<lparr>mem = [[10, 20, 30, 255], replicate 16 0,
                  [1, 2, 3, 9, 1, 2, 3, 9, 1, 2, 3, 9, 1, 2, 3, 9]], sess = ()\<rparr>
         (ndarray_new 1 (2, 2, 4)) 0 0 3 = 0 \<and>
   pixel (stitchChunk \<lparr>data_at = 2, dims = (2, 2, 4)\<rparr> (ndarray_new 1 (2, 2, 4)) (gridTile 1 1 0 0)
            \<lparr>mem = [[10, 20, 30, 255], replicate 16 0,
                     [1, 2, 3, 9, 1, 2, 3, 9, 1, 2, 3, 9, 1, 2, 3, 9]], sess = ()\<rparr>)
         (ndarray_new 1 (2, 2, 4)) 0 0 3 = 9 \<and>
   pixel (stitchChunk \<lparr>data_at = 2, dims = (2, 2, 4)\<rparr> (ndarray_new 1 (2, 2, 4)) (gridTile 1 1 0 0)
            \<lparr>mem = [[10, 20, 30, 255], replicate 16 0,
                     [1, 2, 3, 9, 1, 2, 3, 9, 1, 2, 3, 9, 1, 2, 3, 9]], sess = ()\<rparr>)
         (ndarray_new 1 (2, 2, 4)) 0 0 0 = 1"
proof -
  let ?w = "\<lparr>mem = [[10, 20, 30, 255], replicate 16 0,
                     [1, 2, 3, 9, 1, 2, 3, 9, 1, 2, 3, 9, 1, 2, 3, 9]], sess = ()\<rparr> :: unit world"
  let ?cd = "\<lparr>data_at = 2, dims = (2, 2, 4)\<rparr>"
  let ?t = "gridTile 1 1 0 0"
  have t: "?t = \<lparr>t_x = 0, t_y = 0, t_yStart = 0, t_inH = 1, t_outH = 2,
                  t_xStart = 0, t_inW = 1, t_outW = 2\<rparr>"
    by (simp add: gridTile_def tileOf_def grid_1 PAD_SIZE_def Let_def)
  have h: "1 < length (mem ?w)" "data_at ?cd \<noteq> 1"
    by simp_all
  have g: "int (length (mem ?w ! 1)) = 2 * 2 * 4 \<and> (2::int) * 2 * 4 \<le> 2147483648 \<and>
           0 \<le> t_x ?t \<and> 0 \<le> t_y ?t \<and> t_x ?t * 2 + t_outW ?t \<le> 2 \<and>
           t_y ?t * 2 + t_outH ?t \<le> 2 \<and> 0 < t_outW ?t \<and> 0 < t_outH ?t"
    by (simp add: t)
  from stitchChunk_effect [OF h, where OW = 2 and OH = 2 and t = ?t]
  obtain D where st: "stitchChunk ?cd (ndarray_new 1 (2, 2, 4)) ?t ?w = ?w\<lparr>mem := (mem ?w)[1 := D]\<rparr>"
    and l: "length D = length (mem ?w ! 1)"
    and q: "int (length (mem ?w ! 1)) = 2 * 2 * 4 \<and> (2::int) * 2 * 4 \<le> 2147483648 \<and>
            0 \<le> t_x ?t \<and> 0 \<le> t_y ?t \<and> t_x ?t * 2 + t_outW ?t \<le> 2 \<and>
            t_y ?t * 2 + t_outH ?t \<le> 2 \<and> 0 < t_outW ?t \<and> 0 < t_outH ?t \<longrightarrow>
            (\<forall>px py c. 0 \<le> px \<and> px < 2 \<and> 0 \<le> py \<and> py < 2 \<and> 0 \<le> c \<and> c < 4 \<longrightarrow>
              D ! nat ((px * 2 + py) * 4 + c)
                = (if in_outputRegion ?t px py
                   then stitched_value (buffer_at (mem ?w) (data_at ?cd), dims ?cd) ?t px py c
                   else mem ?w ! 1 ! nat ((px * 2 + py) * 4 + c)))"
    by (elim exE conjE)
  have p: "D ! nat ((px * 2 + py) * 4 + c)
                = (if in_outputRegion ?t px py
                   then stitched_value (buffer_at (mem ?w) (data_at ?cd), dims ?cd) ?t px py c
                   else mem ?w ! 1 ! nat ((px * 2 + py) * 4 + c))"
    if "0 \<le> px" "px < 2" "0 \<le> py" "py < 2" "0 \<le> c" "c < 4" for px py c
    using q g that by blast
  have r: "in_outputRegion ?t 0 0" by (simp add: in_outputRegion_def t)
  have v: "stitched_value (buffer_at (mem ?w) (data_at ?cd), dims ?cd) ?t 0 0 3 = 9"
    "stitched_value (buffer_at (mem ?w) (data_at ?cd), dims ?cd) ?t 0 0 0 = 1"
    by (simp_all add: stitched_value_def t nd_index_def hi_def lo_def to_int32_def ndarray_new_def
        buf_get_def to_uint8_def buffer_at_def)
  have d: "D ! 3 = 9" "D ! 0 = 1"
    using p [of 0 0 3] p [of 0 0 0] r v by simp_all
  have len: "length D = 16" using l by simp
  have 1: "pixel ?w (ndarray_new 1 (2, 2, 4)) 0 0 3 = 0"
    by (simp add: pixel_def nd_get_def nd_index_def ndarray_new_def buffer_at_def buf_get_def
        to_uint8_def)
  have 2: "pixel (?w\<lparr>mem := (mem ?w)[1 := D]\<rparr>) (ndarray_new 1 (2, 2, 4)) 0 0 3 = 9"
    "pixel (?w\<lparr>mem := (mem ?w)[1 := D]\<rparr>) (ndarray_new 1 (2, 2, 4)) 0 0 0 = 1"
    using d len
    by (simp_all add: pixel_def nd_get_def nd_index_def ndarray_new_def buffer_at_def buf_get_def
        to_uint8_def)
  show ?thesis using 1 2 unfolding st by simp
qed

section \<open>The state of the session along a run\<close>

lemma fold_sess:
  assumes "\<And>x (w :: 's world). sess (f x w) = sess w"
  shows "sess (fold f xs w) = sess w"
  by (induction xs arbitrary: w) (simp_all add: assms)

lemma sess_nd_set [simp]: "sess (nd_set w a i j k v) = sess w"
  by (simp add: nd_set_def)

lemma sess_assign [simp]: "sess (assign dest src w) = sess w"
  unfolding assign_def by (intro fold_sess) simp

lemma sess_processAlphaChannel [simp]: "sess (processAlphaChannel a b w) = sess w"
  unfolding processAlphaChannel_def Let_def by (intro fold_sess) simp

lemma sess_stitchChunk [simp]: "sess (stitchChunk cd out t w) = sess w"
  by (simp add: stitchChunk_def Let_def)

lemma runSuperRes_session:
  "case runSuperRes run a w of
     (None, w') \<Rightarrow> True
   | (Some cd, w') \<Rightarrow> \<exists>t r. run (sess w) t = (Inr (Some r), sess w')"
proof -
  obtain x s' where r: "run (sess w) (buffer_at (mem w) (data_at (prepareImage a)),
                                      dims (prepareImage a)) = (x, s')"
    by (cases "run (sess w) (buffer_at (mem w) (data_at (prepareImage a)), dims (prepareImage a))")
      auto
  have ex: "\<exists>t r. run (sess w) t = (Inr (Some r), s')" if "x = Inr (Some r')" for r'
    using r that by blast
  show ?thesis
    unfolding runSuperRes_def Let_def r
    using ex by (cases x) (simp_all split: option.splits prod.splits del: split_paired_Ex)
qed

lemma extractChunk_session:
  "extractChunk img t w = (x, w') \<Longrightarrow> sess w' = sess w"
  unfolding extractChunk_def new_Uint8Array_def Let_def
  by (auto split: if_splits)

lemma tile_session:
  "case upscaleFrame_tile run img outArr cW cH i j v of
     (Inl e, v') \<Rightarrow> True
   | (Inr u, v') \<Rightarrow> \<exists>t r. run (sess v) t = (Inr (Some r), sess v')"
proof -
  let ?t = "tileOf (shape0 img) (shape1 img) cW cH i j"
  obtain x v1 where e: "extractChunk img ?t v = (x, v1)"
    by (cases "extractChunk img ?t v") auto
  note s1 = extractChunk_session [OF e]
  show ?thesis
  proof (cases x)
    case (Inl err)
    then show ?thesis by (simp add: upscaleFrame_tile_def Let_def e)
  next
    case (Inr p)
    obtain inSlice subArr where p: "p = (inSlice, subArr)" by (cases p) auto
    obtain y v2 where r: "runSuperRes run subArr v1 = (y, v2)"
      by (cases "runSuperRes run subArr v1") auto
    show ?thesis
      using runSuperRes_session [where run = run and a = subArr and w = v1]
      by (cases y) (simp_all add: upscaleFrame_tile_def Let_def e Inr p r s1)
  qed
qed

lemma for_loop_preserves:
  assumes "I acc w"
    and step: "\<And>k a v. I a v \<Longrightarrow>
                 (case body k a v of (Inl e, v') \<Rightarrow> True | (Inr a', v') \<Rightarrow> I a' v')"
  shows "case for_loop s n body acc w of
           (Inl e, w') \<Rightarrow> True
         | (Inr acc', w') \<Rightarrow> I acc' w'"
  using assms
proof (induction s n body acc w rule: for_loop.induct)
  case (1 s n body acc w)
  show ?case
  proof (cases "s < n")
    case False
    then show ?thesis using "1.prems"(1) by (simp add: for_loop.simps [of s n])
  next
    case True
    obtain x v' where b: "body s acc w = (x, v')" by (cases "body s acc w") auto
    show ?thesis
    proof (cases x)
      case (Inl e)
      then show ?thesis using True b by (simp add: for_loop.simps [of s n])
    next
      case (Inr a')
      have I': "I a' v'"
        using "1.prems"(2) [of acc w s] "1.prems"(1) b Inr by simp
      have "case for_loop (s + 1) n body a' v' of
              (Inl e, w') \<Rightarrow> True
            | (Inr acc', w') \<Rightarrow> I acc' w'"
        using True b Inr I' "1.prems"(2)
        by (intro "1.IH" [of x v' a']) simp_all
      then show ?thesis
        using True b Inr by (simp add: for_loop.simps [of s n])
    qed
  qed
qed

text \<open>
  A property of the state of the session that every call with a result preserves is
  preserved by a pass that returns, and by \<^verbatim>\<open>multiUpscale\<close> when it returns.
\<close>

lemma upscaleFrame_session:
  assumes keep: "\<And>s t r s'. S s \<Longrightarrow> run s t = (Inr (Some r), s') \<Longrightarrow> S s'"
    and "S (sess w)" and res: "upscaleFrame run img w = (Inr out, w')"
  shows "S (sess w')"
proof -
  have tile: "case upscaleFrame_tile run img outArr cW cH i j v of
                (Inl e, v') \<Rightarrow> True | (Inr u, v') \<Rightarrow> S (sess v')"
    if "S (sess v)" for outArr cW cH i j and v :: "'a world"
    using tile_session [where run = run and img = img and outArr = outArr and cW = cW and cH = cH
        and i = i and j = j and v = v] keep that
    by (auto split: prod.splits sum.splits)
  have row: "case for_loop 0 n (\<lambda>j u'. upscaleFrame_tile run img outArr cW cH i j) u v of
               (Inl e, v') \<Rightarrow> True | (Inr u', v') \<Rightarrow> S (sess v')"
    if "S (sess v)" for outArr cW cH i n u and v :: "'a world"
    by (rule for_loop_preserves [where I = "\<lambda>u v. S (sess v)"]) (use that tile in simp_all)
  have loops: "case for_loop 0 m (\<lambda>i u. for_loop 0 n (\<lambda>j u'. upscaleFrame_tile run img outArr cW cH i j) u)
               () v of
          (Inl e, v') \<Rightarrow> True | (Inr u', v') \<Rightarrow> S (sess v')"
    if "S (sess v)" for outArr cW cH n m and v :: "'a world"
    by (rule for_loop_preserves [where I = "\<lambda>u v. S (sess v)"]) (use that row in simp_all)
  let ?n = "shape0 img * 2 * (shape1 img * 2) * 4"
  let ?w1 = "w\<lparr>mem := mem w @ [replicate (nat ?n) 0]\<rparr>"
  let ?out = "ndarray_new (length (mem w)) (shape0 img * 2, shape1 img * 2, 4)"
  have nn: "\<not> ?n < 0"
    using res by (auto simp: upscaleFrame_def Let_def new_Uint8Array_def split: if_splits)
  obtain y v' where l: "for_loop 0 (nChunks (shape1 img))
       (\<lambda>i u. for_loop 0 (nChunks (shape0 img))
                 (\<lambda>j u'. upscaleFrame_tile run img ?out (chunkLen (shape0 img))
                             (chunkLen (shape1 img)) i j) u) () ?w1 = (y, v')"
    by (cases "for_loop 0 (nChunks (shape1 img))
       (\<lambda>i u. for_loop 0 (nChunks (shape0 img))
                 (\<lambda>j u'. upscaleFrame_tile run img ?out (chunkLen (shape0 img))
                             (chunkLen (shape1 img)) i j) u) () ?w1") auto
  have "y = Inr () \<and> v' = w'"
    using res nn l by (auto simp: upscaleFrame_def Let_def new_Uint8Array_def split: sum.splits)
  moreover have "S (sess ?w1)" using assms(2) by simp
  ultimately show ?thesis
    using loops [of ?w1 "nChunks (shape1 img)" "nChunks (shape0 img)" ?out
        "chunkLen (shape0 img)" "chunkLen (shape1 img)"] l
    by simp
qed

lemma multiUpscale_session:
  assumes keep: "\<And>s t r s'. S s \<Longrightarrow> run s t = (Inr (Some r), s') \<Longrightarrow> S s'"
    and "S (sess w)" and res: "multiUpscale run img N w = (Inr out, w')"
  shows "S (sess w')"
proof -
  have "case for_loop 0 (int N) (\<lambda>s outArr. upscaleFrame run outArr) img w of
          (Inl e, v') \<Rightarrow> True | (Inr u', v') \<Rightarrow> S (sess v')"
  proof (rule for_loop_preserves [where I = "\<lambda>u v. S (sess v)"])
    show "S (sess w)" by (rule assms(2))
    fix k a and v :: "'a world" assume "S (sess v)"
    then show "case upscaleFrame run a v of (Inl e, v') \<Rightarrow> True | (Inr a', v') \<Rightarrow> S (sess v')"
      using upscaleFrame_session [where S = S and run = run, OF keep]
      by (auto split: prod.splits sum.splits)
  qed
  then show ?thesis using res by (simp add: multiUpscale_def)
qed

section \<open>Images and batches\<close>













section \<open>Failures of the inference\<close>

lemma for_loop_error:
  assumes step: "\<And>k a v. case body k a v of (Inl e, v') \<Rightarrow> E e v' | (Inr a', v') \<Rightarrow> True"
  shows "case for_loop s n body acc w of
           (Inl e, w') \<Rightarrow> E e w'
         | (Inr acc', w') \<Rightarrow> True"
  using assms
proof (induction s n body acc w rule: for_loop.induct)
  case (1 s n body acc w)
  show ?case
  proof (cases "s < n")
    case False
    then show ?thesis by (simp add: for_loop.simps [of s n])
  next
    case True
    obtain x v' where b: "body s acc w = (x, v')" by (cases "body s acc w") auto
    show ?thesis
    proof (cases x)
      case (Inl e)
      then show ?thesis
        using "1.prems" [of s acc w] True b by (simp add: for_loop.simps [of s n])
    next
      case (Inr a')
      have "case for_loop (s + 1) n body a' v' of
              (Inl e, w') \<Rightarrow> E e w'
            | (Inr acc', w') \<Rightarrow> True"
        using True b Inr "1.prems"
        by (intro "1.IH" [of x v' a']) simp_all
      then show ?thesis
        using True b Inr by (simp add: for_loop.simps [of s n])
    qed
  qed
qed

lemma runSuperRes_failure:
  "case runSuperRes run a w of
     (None, w') \<Rightarrow> \<exists>t x. run (sess w) t = (x, sess w') \<and> no_result x
   | (Some cd, w') \<Rightarrow> True"
proof -
  obtain x s' where r: "run (sess w) (buffer_at (mem w) (data_at (prepareImage a)),
                                      dims (prepareImage a)) = (x, s')"
    by (cases "run (sess w) (buffer_at (mem w) (data_at (prepareImage a)), dims (prepareImage a))")
      auto
  have ex: "\<exists>t x'. run (sess w) t = (x', s') \<and> no_result x'" if "no_result x"
    using r that by blast
  show ?thesis
    unfolding runSuperRes_def Let_def r
    using ex
    by (cases x) (simp_all add: no_result_def split: option.splits prod.splits
        del: split_paired_Ex)
qed

lemma extractChunk_error:
  "extractChunk img t w = (Inl e, w') \<Longrightarrow> e = RangeError"
  unfolding extractChunk_def new_Uint8Array_def Let_def
  by (auto split: if_splits)

text \<open>
  When the body of the loops throws a \<^verbatim>\<open>TypeError\<close>, the call of the session it made
  returned no result, and the state of the session is the one that call left.
\<close>

lemma tile_abort_session:
  "case upscaleFrame_tile run img outArr cW cH i j v of
     (Inl e, v') \<Rightarrow> e = TypeError \<longrightarrow> (\<exists>t x. run (sess v) t = (x, sess v') \<and> no_result x)
   | (Inr u, v') \<Rightarrow> True"
proof -
  let ?t = "tileOf (shape0 img) (shape1 img) cW cH i j"
  obtain x v1 where e: "extractChunk img ?t v = (x, v1)"
    by (cases "extractChunk img ?t v") auto
  note s1 = extractChunk_session [OF e]
  show ?thesis
  proof (cases x)
    case (Inl err)
    then have "err = RangeError" using e by (simp add: extractChunk_error)
    then show ?thesis by (simp add: upscaleFrame_tile_def Let_def e Inl)
  next
    case (Inr p)
    obtain inSlice subArr where p: "p = (inSlice, subArr)" by (cases p) auto
    obtain y v2 where r: "runSuperRes run subArr v1 = (y, v2)"
      by (cases "runSuperRes run subArr v1") auto
    show ?thesis
      using runSuperRes_failure [where run = run and a = subArr and w = v1]
      by (cases y) (simp_all add: upscaleFrame_tile_def Let_def e Inr p r s1)
  qed
qed

text \<open>
  A property that the state of the session has after every call without a result holds
  when a pass has ended with a \<^verbatim>\<open>TypeError\<close>, and when \<^verbatim>\<open>multiUpscale\<close> has.
\<close>

lemma upscaleFrame_abort_session:
  assumes set: "\<And>s t x s'. run s t = (x, s') \<Longrightarrow> no_result x \<Longrightarrow> F s'"
    and res: "upscaleFrame run img w = (Inl TypeError, w')"
  shows "F (sess w')"
proof -
  let ?E = "\<lambda>e (v :: 'a world). e = TypeError \<longrightarrow> F (sess v)"
  have tile: "case upscaleFrame_tile run img outArr cW cH i j v of
                (Inl e, v') \<Rightarrow> ?E e v' | (Inr u, v') \<Rightarrow> True"
    for outArr cW cH i j and v :: "'a world"
    using tile_abort_session [where run = run and img = img and outArr = outArr and cW = cW
        and cH = cH and i = i and j = j and v = v] set
    by (auto split: prod.splits sum.splits)
  have row: "case for_loop 0 n (\<lambda>j u'. upscaleFrame_tile run img outArr cW cH i j) u v of
               (Inl e, v') \<Rightarrow> ?E e v' | (Inr u', v') \<Rightarrow> True"
    for outArr cW cH i n u and v :: "'a world"
    by (rule for_loop_error [where E = ?E]) (rule tile)
  have loops: "case for_loop 0 m (\<lambda>i u. for_loop 0 n (\<lambda>j u'. upscaleFrame_tile run img outArr cW cH i j) u)
               () v of
          (Inl e, v') \<Rightarrow> ?E e v' | (Inr u', v') \<Rightarrow> True"
    for outArr cW cH n m and v :: "'a world"
    by (rule for_loop_error [where E = ?E]) (rule row)
  let ?n = "shape0 img * 2 * (shape1 img * 2) * 4"
  let ?w1 = "w\<lparr>mem := mem w @ [replicate (nat ?n) 0]\<rparr>"
  let ?out = "ndarray_new (length (mem w)) (shape0 img * 2, shape1 img * 2, 4)"
  have nn: "\<not> ?n < 0"
    using res by (auto simp: upscaleFrame_def Let_def new_Uint8Array_def split: if_splits)
  obtain y v' where l: "for_loop 0 (nChunks (shape1 img))
       (\<lambda>i u. for_loop 0 (nChunks (shape0 img))
                 (\<lambda>j u'. upscaleFrame_tile run img ?out (chunkLen (shape0 img))
                             (chunkLen (shape1 img)) i j) u) () ?w1 = (y, v')"
    by (cases "for_loop 0 (nChunks (shape1 img))
       (\<lambda>i u. for_loop 0 (nChunks (shape0 img))
                 (\<lambda>j u'. upscaleFrame_tile run img ?out (chunkLen (shape0 img))
                             (chunkLen (shape1 img)) i j) u) () ?w1") auto
  have "y = Inl TypeError \<and> v' = w'"
    using res nn l by (auto simp: upscaleFrame_def Let_def new_Uint8Array_def split: sum.splits)
  then show ?thesis
    using loops [of "nChunks (shape1 img)" "nChunks (shape0 img)" ?out
        "chunkLen (shape0 img)" "chunkLen (shape1 img)" ?w1] l
    by simp
qed

lemma multiUpscale_abort_session:
  assumes set: "\<And>s t x s'. run s t = (x, s') \<Longrightarrow> no_result x \<Longrightarrow> F s'"
    and res: "multiUpscale run img N w = (Inl TypeError, w')"
  shows "F (sess w')"
proof -
  let ?E = "\<lambda>e (v :: 'a world). e = TypeError \<longrightarrow> F (sess v)"
  have "case for_loop 0 (int N) (\<lambda>s outArr. upscaleFrame run outArr) img w of
          (Inl e, v') \<Rightarrow> ?E e v' | (Inr u', v') \<Rightarrow> True"
  proof (rule for_loop_error [where E = ?E])
    fix k a and v :: "'a world"
    show "case upscaleFrame run a v of (Inl e, v') \<Rightarrow> ?E e v' | (Inr a', v') \<Rightarrow> True"
      using upscaleFrame_abort_session [where F = F and run = run and img = a and w = v, OF set]
      by (auto split: prod.splits sum.splits)
  qed
  then show ?thesis using res by (simp add: multiUpscale_def)
qed

text \<open>On an RGBA image, \<^verbatim>\<open>multiUpscale\<close> ends with no exception but a \<^verbatim>\<open>TypeError\<close>.\<close>

lemma multiUpscale_outcome:
  assumes "rgba_image w img"
  shows "case multiUpscale run img N w of
           (Inl e, w') \<Rightarrow> e = TypeError
         | (Inr out, w') \<Rightarrow> rgba_image w' out"
  unfolding multiUpscale_def
proof (rule for_loop_rule [where I = "\<lambda>k out v. rgba_image v out" and E = "\<lambda>e v. e = TypeError"])
  show "0 \<le> int N" by simp
  show "rgba_image w img" by (rule assms)
  fix k a and v :: "'a world"
  assume a: "rgba_image v a"
  obtain x v' where r: "upscaleFrame run a v = (x, v')"
    by (cases "upscaleFrame run a v") auto
  show "case upscaleFrame run a v of
          (Inl e, v') \<Rightarrow> e = TypeError
        | (Inr a', v') \<Rightarrow> rgba_image v' a'"
  proof (cases x)
    case (Inl e)
    then have "pass_error run (mem v ! buf a) a e"
      using upscaleFrame_error [OF a] r by simp
    then show ?thesis unfolding r Inl by (simp add: pass_error_def)
  next
    case (Inr a')
    then show ?thesis
      unfolding r using upscaleFrame_result(2) [OF a tile_establishes_trivial r [unfolded Inr]]
      by simp
  qed
qed

text \<open>
  For a session whose state records that a call returned no result, a pass that starts
  with the record clear ends with a \<^verbatim>\<open>TypeError\<close> and the record set, or returns with
  the record clear; and so does \<^verbatim>\<open>multiUpscale\<close>.
\<close>

lemma flagged_outcome:
  assumes rec: "\<forall>s t x s'. run s t = (x, s') \<longrightarrow> failed s' = (failed s \<or> no_result x)"
    and img: "rgba_image w img" and clear: "\<not> failed (sess w)"
  shows "case upscaleFrame run img w of
           (Inl e, w') \<Rightarrow> e = TypeError \<and> failed (sess w')
         | (Inr out, w') \<Rightarrow> \<not> failed (sess w')"
    and "case multiUpscale run img N w of
           (Inl e, w') \<Rightarrow> e = TypeError \<and> failed (sess w')
         | (Inr out, w') \<Rightarrow> \<not> failed (sess w')"
proof -
  have keep: "\<not> failed s'" if "\<not> failed s" "run s t = (Inr (Some r), s')" for s t r s'
    using rec [rule_format, OF that(2)] that(1) by (simp add: no_result_def)
  have set: "failed s'" if "run s t = (x, s')" "no_result x" for s t x s'
    using rec [rule_format, OF that(1)] that(2) by simp
  obtain x1 w1 where p: "upscaleFrame run img w = (x1, w1)"
    by (cases "upscaleFrame run img w") auto
  show "case upscaleFrame run img w of
            (Inl e, w') \<Rightarrow> e = TypeError \<and> failed (sess w')
          | (Inr out, w') \<Rightarrow> \<not> failed (sess w')"
  proof (cases x1)
    case (Inl e)
    have "pass_error run (mem w ! buf img) img e"
      using upscaleFrame_error [OF img] p Inl by simp
    then have e: "e = TypeError" by (simp add: pass_error_def)
    have "failed (sess w1)"
      by (rule upscaleFrame_abort_session [where F = failed and run = run, OF set])
         (use p Inl e in simp_all)
    then show ?thesis unfolding p Inl using e by simp
  next
    case (Inr out)
    have "\<not> failed (sess w1)"
    proof (rule upscaleFrame_session [where S = "\<lambda>s. \<not> failed s" and run = run, rotated 2])
      show "\<not> failed (sess w)" by (rule clear)
      show "upscaleFrame run img w = (Inr out, w1)" using p Inr by simp
    qed (rule keep)
    then show ?thesis unfolding p Inr by simp
  qed
  obtain x2 w2 where m: "multiUpscale run img N w = (x2, w2)"
    by (cases "multiUpscale run img N w") auto
  show "case multiUpscale run img N w of
            (Inl e, w') \<Rightarrow> e = TypeError \<and> failed (sess w')
          | (Inr out, w') \<Rightarrow> \<not> failed (sess w')"
  proof (cases x2)
    case (Inl e)
    have e: "e = TypeError"
      using multiUpscale_outcome [OF img, of run N] m Inl by simp
    have "failed (sess w2)"
      by (rule multiUpscale_abort_session [where F = failed and run = run, OF set])
         (use m Inl e in simp_all)
    then show ?thesis unfolding m Inl using e by simp
  next
    case (Inr out)
    have "\<not> failed (sess w2)"
    proof (rule multiUpscale_session [where S = "\<lambda>s. \<not> failed s" and run = run, rotated 2])
      show "\<not> failed (sess w)" by (rule clear)
      show "multiUpscale run img N w = (Inr out, w2)" using m Inr by simp
    qed (rule keep)
    then show ?thesis unfolding m Inr by simp
  qed
qed

section \<open>Recording the failures of any session\<close>

lemma recording_records:
  "\<forall>s t x s'. recording run s t = (x, s') \<longrightarrow> snd s' = (snd s \<or> no_result x)"
  by (auto simp: recording_def split: prod.splits)

lemma plain_simps [simp]: "mem (plain w) = mem w" "sess (plain w) = fst (sess w)"
  by (simp_all add: plain_def)

lemma plain_mem_update [simp]: "plain (w\<lparr>mem := m\<rparr>) = (plain w)\<lparr>mem := m\<rparr>"
  by (simp add: plain_def)

lemma plain_nd [simp]:
  "nd_get (plain w) a i j k = nd_get w a i j k"
  "plain (nd_set w a i j k v) = nd_set (plain w) a i j k v"
  by (simp_all add: nd_get_def nd_set_def)

lemma fold_plain:
  assumes "\<And>x w. plain (f x w) = g x (plain w)"
  shows "plain (fold f xs w) = fold g xs (plain w)"
  by (induction xs arbitrary: w) (simp_all add: assms)

lemma plain_assign [simp]: "plain (assign d s w) = assign d s (plain w)"
  unfolding assign_def by (intro fold_plain) simp

lemma plain_processAlphaChannel [simp]:
  "plain (processAlphaChannel a b w) = processAlphaChannel a b (plain w)"
  unfolding processAlphaChannel_def Let_def by (intro fold_plain) simp

lemma plain_stitchChunk [simp]: "plain (stitchChunk cd out t w) = stitchChunk cd out t (plain w)"
  by (simp add: stitchChunk_def Let_def)

lemma plain_extractChunk:
  "extractChunk img t (plain w) = map_prod id plain (extractChunk img t w)"
  by (simp add: extractChunk_def new_Uint8Array_def Let_def)

lemma plain_runSuperRes:
  "runSuperRes run a (plain w) = map_prod id plain (runSuperRes (recording run) a w)"
  by (simp add: runSuperRes_def recording_def Let_def plain_def
      split: prod.splits sum.splits option.splits)

lemma plain_tile:
  "upscaleFrame_tile run img outArr cW cH i j (plain w)
   = map_prod id plain (upscaleFrame_tile (recording run) img outArr cW cH i j w)"
proof -
  let ?t = "tileOf (shape0 img) (shape1 img) cW cH i j"
  obtain x v1 where e: "extractChunk img ?t w = (x, v1)"
    by (cases "extractChunk img ?t w") auto
  have e': "extractChunk img ?t (plain w) = (x, plain v1)"
    by (simp add: plain_extractChunk e)
  show ?thesis
  proof (cases x)
    case (Inl err)
    then show ?thesis by (simp add: upscaleFrame_tile_def Let_def e e')
  next
    case (Inr p)
    obtain inSlice subArr where p: "p = (inSlice, subArr)" by (cases p) auto
    obtain y v2 where r: "runSuperRes (recording run) subArr v1 = (y, v2)"
      by (cases "runSuperRes (recording run) subArr v1") auto
    have r': "runSuperRes run subArr (plain v1) = (y, plain v2)"
      by (simp add: plain_runSuperRes r)
    show ?thesis
      by (cases y) (simp_all add: upscaleFrame_tile_def Let_def e e' Inr p r r')
  qed
qed

lemma for_loop_plain:
  assumes "\<And>k a v. body' k a (plain v) = map_prod id plain (body k a v)"
  shows "for_loop s n body' acc (plain w) = map_prod id plain (for_loop s n body acc w)"
  using assms
proof (induction s n body acc w rule: for_loop.induct)
  case (1 s n body acc w)
  show ?case
  proof (cases "s < n")
    case False
    then show ?thesis by (simp add: for_loop.simps [of s n])
  next
    case True
    obtain x v' where b: "body s acc w = (x, v')" by (cases "body s acc w") auto
    have b': "body' s acc (plain w) = (x, plain v')" using "1.prems" [of s acc w] b by simp
    show ?thesis
    proof (cases x)
      case (Inl e)
      then show ?thesis using True b b' by (simp add: for_loop.simps [of s n])
    next
      case (Inr a')
      have "for_loop (s + 1) n body' a' (plain v') = map_prod id plain (for_loop (s + 1) n body a' v')"
        using True b Inr "1.prems" by (intro "1.IH" [of x v' a']) simp_all
      then show ?thesis using True b b' Inr by (simp add: for_loop.simps [of s n] id_def)
    qed
  qed
qed

text \<open>
  A pass over the session with the record does what the pass over the session itself
  does, and \<^verbatim>\<open>multiUpscale\<close> likewise: the same result, the same heap and the same state
  of the session.
\<close>

lemma plain_upscaleFrame:
  "upscaleFrame run img (plain w) = map_prod id plain (upscaleFrame (recording run) img w)"
proof -
  have row: "for_loop 0 n (\<lambda>j u'. upscaleFrame_tile run img outArr cW cH i j) u (plain v)
           = map_prod id plain
               (for_loop 0 n (\<lambda>j u'. upscaleFrame_tile (recording run) img outArr cW cH i j) u v)"
    for n outArr cW cH i u v
    by (rule for_loop_plain) (rule plain_tile)
  have loops: "for_loop 0 m (\<lambda>i u. for_loop 0 n (\<lambda>j u'. upscaleFrame_tile run img outArr cW cH i j) u)
                 () (plain v)
           = map_prod id plain
               (for_loop 0 m (\<lambda>i u. for_loop 0 n
                    (\<lambda>j u'. upscaleFrame_tile (recording run) img outArr cW cH i j) u) () v)"
    for m n outArr cW cH v
    by (rule for_loop_plain) (rule row)
  let ?n = "shape0 img * 2 * (shape1 img * 2) * 4"
  let ?w1 = "w\<lparr>mem := mem w @ [replicate (nat ?n) 0]\<rparr>"
  let ?out = "ndarray_new (length (mem w)) (shape0 img * 2, shape1 img * 2, 4)"
  show ?thesis
  proof (cases "?n < 0")
    case True
    then show ?thesis by (simp add: upscaleFrame_def Let_def new_Uint8Array_def)
  next
    case False
    obtain y v' where r: "for_loop 0 (nChunks (shape1 img))
       (\<lambda>i u. for_loop 0 (nChunks (shape0 img))
                 (\<lambda>j u'. upscaleFrame_tile (recording run) img ?out (chunkLen (shape0 img))
                             (chunkLen (shape1 img)) i j) u) () ?w1 = (y, v')"
      by (cases "for_loop 0 (nChunks (shape1 img))
       (\<lambda>i u. for_loop 0 (nChunks (shape0 img))
                 (\<lambda>j u'. upscaleFrame_tile (recording run) img ?out (chunkLen (shape0 img))
                             (chunkLen (shape1 img)) i j) u) () ?w1") auto
    have p: "plain ?w1 = (plain w)\<lparr>mem := mem (plain w) @ [replicate (nat ?n) 0]\<rparr>"
      by simp
    have "for_loop 0 (nChunks (shape1 img))
       (\<lambda>i u. for_loop 0 (nChunks (shape0 img))
                 (\<lambda>j u'. upscaleFrame_tile run img ?out (chunkLen (shape0 img))
                             (chunkLen (shape1 img)) i j) u) () (plain ?w1) = (y, plain v')"
      unfolding loops r by simp
    then show ?thesis
      using False r unfolding p
      by (simp add: upscaleFrame_def Let_def new_Uint8Array_def split: sum.splits)
  qed
qed

lemma plain_multiUpscale:
  "multiUpscale run img N (plain w) = map_prod id plain (multiUpscale (recording run) img N w)"
  unfolding multiUpscale_def by (rule for_loop_plain) (rule plain_upscaleFrame)

text \<open>
  So for every session: a pass on an RGBA image ends with a \<^verbatim>\<open>TypeError\<close> when one of
  the inference calls it made returned no result, and returns when none did; and so does
  \<^verbatim>\<open>multiUpscale\<close>.
\<close>

lemma recorded_outcome:
  assumes "rgba_image w img"
  shows "case upscaleFrame (recording run) img \<lparr>mem = mem w, sess = (sess w, False)\<rparr> of
           (Inl e, v) \<Rightarrow> e = TypeError \<and> snd (sess v) \<and> upscaleFrame run img w = (Inl e, plain v)
         | (Inr out, v) \<Rightarrow> \<not> snd (sess v) \<and> upscaleFrame run img w = (Inr out, plain v)"
    and "case multiUpscale (recording run) img N \<lparr>mem = mem w, sess = (sess w, False)\<rparr> of
           (Inl e, v) \<Rightarrow> e = TypeError \<and> snd (sess v) \<and> multiUpscale run img N w = (Inl e, plain v)
         | (Inr out, v) \<Rightarrow> \<not> snd (sess v) \<and> multiUpscale run img N w = (Inr out, plain v)"
proof -
  let ?wr = "\<lparr>mem = mem w, sess = (sess w, False)\<rparr>"
  have w: "plain ?wr = w" by (simp add: plain_def)
  have img: "rgba_image ?wr img" using assms by (simp add: rgba_image_def)
  have clear: "\<not> snd (sess ?wr)" by simp
  note f = flagged_outcome [where run = "recording run" and failed = snd,
      OF recording_records img clear]
  obtain r v where p: "upscaleFrame (recording run) img ?wr = (r, v)"
    by (cases "upscaleFrame (recording run) img ?wr") auto
  have "upscaleFrame run img w = (r, plain v)"
    using plain_upscaleFrame [of run img ?wr] unfolding w p by simp
  then show "case upscaleFrame (recording run) img ?wr of
           (Inl e, v) \<Rightarrow> e = TypeError \<and> snd (sess v) \<and> upscaleFrame run img w = (Inl e, plain v)
         | (Inr out, v) \<Rightarrow> \<not> snd (sess v) \<and> upscaleFrame run img w = (Inr out, plain v)"
    using f(1) unfolding p by (cases r) simp_all
  obtain r' v' where m: "multiUpscale (recording run) img N ?wr = (r', v')"
    by (cases "multiUpscale (recording run) img N ?wr") auto
  have "multiUpscale run img N w = (r', plain v')"
    using plain_multiUpscale [of run img N ?wr] unfolding w m by simp
  then show "case multiUpscale (recording run) img N ?wr of
           (Inl e, v) \<Rightarrow> e = TypeError \<and> snd (sess v) \<and> multiUpscale run img N w = (Inl e, plain v)
         | (Inr out, v) \<Rightarrow> \<not> snd (sess v) \<and> multiUpscale run img N w = (Inr out, plain v)"
    using f(2) [of N] unfolding m by (cases r') simp_all
qed

section \<open>A missing inference result\<close>

text \<open>
  C4, as amended: the core does not validate the shape of the buffer that the inference
  returns. When the inference call made for the chunk of a tile returns no result (the
  session throws, or its output is missing), the body of the loops throws a
  \<^verbatim>\<open>TypeError\<close> at line 98, where it reads the result, having written no buffer but the
  chunk it extracted: the missing chunk never reaches the stitching step. The pass is
  aborted with that exception, and \<^verbatim>\<open>multiUpscale\<close> with it, whichever of its passes
  made the call. Neither is aborted for any other reason: each returns exactly when every
  inference call it made returned a buffer, of whatever dimensions. That one of the calls
  made returned no result is read off the record that \<open>recording\<close> keeps, for any
  session: the run with the record ends as the run without it does, in the same state.
\<close>

theorem missing_result_aborts_pass:
  assumes "rgba_image w img"
  shows "(\<forall>i j x s'. 0 \<le> i \<and> i < nChunks (shape1 img) \<and> 0 \<le> j \<and> j < nChunks (shape0 img) \<and>
                      run (sess w) (tile_chunk (mem w ! buf img) img i j) = (x, s') \<and> no_result x \<longrightarrow>
            upscaleFrame_tile run img outArr (chunkLen (shape0 img)) (chunkLen (shape1 img)) i j w
              = (Inl TypeError,
                 w\<lparr>mem := mem w @ [fst (tile_chunk (mem w ! buf img) img i j)], sess := s'\<rparr>)) \<and>
         (case upscaleFrame (recording run) img \<lparr>mem = mem w, sess = (sess w, False)\<rparr> of
            (Inl e, v) \<Rightarrow> e = TypeError \<and> snd (sess v) \<and> upscaleFrame run img w = (Inl e, plain v)
          | (Inr out, v) \<Rightarrow> \<not> snd (sess v) \<and> upscaleFrame run img w = (Inr out, plain v)) \<and>
         (case multiUpscale (recording run) img N \<lparr>mem = mem w, sess = (sess w, False)\<rparr> of
            (Inl e, v) \<Rightarrow> e = TypeError \<and> snd (sess v) \<and> multiUpscale run img N w = (Inl e, plain v)
          | (Inr out, v) \<Rightarrow> \<not> snd (sess v) \<and> multiUpscale run img N w = (Inr out, plain v))"
proof (intro conjI impI allI, elim conjE)
  fix i j x s'
  assume "0 \<le> i" "i < nChunks (shape1 img)" "0 \<le> j" "j < nChunks (shape0 img)"
    "run (sess w) (tile_chunk (mem w ! buf img) img i j) = (x, s')" "no_result x"
  then show "upscaleFrame_tile run img outArr (chunkLen (shape0 img)) (chunkLen (shape1 img)) i j w
              = (Inl TypeError,
                 w\<lparr>mem := mem w @ [fst (tile_chunk (mem w ! buf img) img i j)], sess := s'\<rparr>)"
    by (rule tile_failure [where run = run, OF assms])
next
  show "case upscaleFrame (recording run) img \<lparr>mem = mem w, sess = (sess w, False)\<rparr> of
            (Inl e, v) \<Rightarrow> e = TypeError \<and> snd (sess v) \<and> upscaleFrame run img w = (Inl e, plain v)
          | (Inr out, v) \<Rightarrow> \<not> snd (sess v) \<and> upscaleFrame run img w = (Inr out, plain v)"
    by (rule recorded_outcome(1) [OF assms])
  show "case multiUpscale (recording run) img N \<lparr>mem = mem w, sess = (sess w, False)\<rparr> of
            (Inl e, v) \<Rightarrow> e = TypeError \<and> snd (sess v) \<and> multiUpscale run img N w = (Inl e, plain v)
          | (Inr out, v) \<Rightarrow> \<not> snd (sess v) \<and> multiUpscale run img N w = (Inr out, plain v)"
    by (rule recorded_outcome(2) [OF assms])
qed

text \<open>Passes over an image that is one tile, and \<^verbatim>\<open>multiUpscale\<close> with two passes.\<close>

lemma for_loop_once:
  "for_loop 0 1 body acc w
   = (case body 0 acc w of (Inl e, w') \<Rightarrow> (Inl e, w') | (Inr acc', w') \<Rightarrow> (Inr acc', w'))"
  by (subst for_loop.simps) (auto simp: for_loop.simps [of 1 1] split: prod.splits sum.splits)

lemma upscaleFrame_single_tile:
  assumes img: "rgba_image w img" and one: "nChunks (shape0 img) = 1" "nChunks (shape1 img) = 1"
  shows "upscaleFrame run img w
       = (case upscaleFrame_tile run img
                 (ndarray_new (length (mem w)) (shape0 img * 2, shape1 img * 2, 4))
                 (chunkLen (shape0 img)) (chunkLen (shape1 img)) 0 0
                 (w\<lparr>mem := mem w @ [replicate (nat (shape0 img * 2 * (shape1 img * 2) * 4)) 0]\<rparr>) of
            (Inl e, w') \<Rightarrow> (Inl e, w')
          | (Inr u, w') \<Rightarrow>
              (Inr (ndarray_new (length (mem w)) (shape0 img * 2, shape1 img * 2, 4)), w'))"
proof -
  have WH: "1 \<le> shape0 img" "1 \<le> shape1 img" using img by (simp_all add: rgba_image_def)
  have "0 \<le> shape0 img * shape1 img" using WH by simp
  then have nn: "\<not> shape0 img * 2 * (shape1 img * 2) * 4 < 0" by simp
  show ?thesis
    using nn
    by (simp add: upscaleFrame_def Let_def new_Uint8Array_def one for_loop_once
        split: prod.splits sum.splits)
qed

lemma single_tile_pass:
  assumes img: "rgba_image w img" and one: "nChunks (shape0 img) = 1" "nChunks (shape1 img) = 1"
    and run: "run (sess w) (tile_chunk (mem w ! buf img) img 0 0) = (x, s')"
  shows "no_result x \<Longrightarrow> \<exists>w'. upscaleFrame run img w = (Inl TypeError, w') \<and> sess w' = s'"
    and "\<not> no_result x \<Longrightarrow> \<exists>out w'. upscaleFrame run img w = (Inr out, w') \<and> sess w' = s'"
proof -
  let ?out = "ndarray_new (length (mem w)) (shape0 img * 2, shape1 img * 2, 4)"
  let ?w1 = "w\<lparr>mem := mem w @ [replicate (nat (shape0 img * 2 * (shape1 img * 2) * 4)) 0]\<rparr>"
  have inv: "pass_inv run w img ?out (\<lambda>px py c b. True) 0 0 ?w1"
    by (rule pass_inv_start [OF img])
  have img1: "rgba_image ?w1 img" and cv1: "canvas_for ?w1 img ?out"
    using inv by (simp_all add: pass_inv_def)
  have a: "buf img < length (mem w)" using img by (simp add: rgba_image_def)
  have run1: "run (sess ?w1) (tile_chunk (mem ?w1 ! buf img) img 0 0) = (x, s')"
    using run a by (simp add: nth_append)
  have t: "(0::int) \<le> 0" "0 < nChunks (shape1 img)" "0 < nChunks (shape0 img)"
    by (simp_all add: one)
  show "\<exists>w'. upscaleFrame run img w = (Inl TypeError, w') \<and> sess w' = s'" if "no_result x"
    unfolding upscaleFrame_single_tile [OF img one]
      tile_failure [where run = run, OF img1 t(1,2) t(1,3) run1 that]
    by simp
  show "\<exists>out w'. upscaleFrame run img w = (Inr out, w') \<and> sess w' = s'" if nr: "\<not> no_result x"
  proof -
    have "\<exists>r. x = Inr (Some r)"
    proof (cases x)
      case (Inl e)
      then show ?thesis using nr by (simp add: no_result_def)
    next
      case (Inr b)
      then show ?thesis using nr by (cases b) (simp_all add: no_result_def del: split_paired_Ex)
    qed
    then obtain r where x: "x = Inr (Some r)" by blast
    from tile_success [where run = run, OF img1 cv1 t(1,2) t(1,3) run1 [unfolded x]]
    obtain w' where "upscaleFrame_tile run img ?out (chunkLen (shape0 img)) (chunkLen (shape1 img))
                       0 0 ?w1 = (Inr (), w')" "sess w' = s'"
      by blast
    then show ?thesis
      unfolding upscaleFrame_single_tile [OF img one] by simp
  qed
qed

lemma multiUpscale_twice:
  "multiUpscale run img 2 w
   = (case upscaleFrame run img w of
        (Inl e, w') \<Rightarrow> (Inl e, w')
      | (Inr out, w') \<Rightarrow>
          (case upscaleFrame run out w' of
             (Inl e, w'') \<Rightarrow> (Inl e, w'')
           | (Inr out', w'') \<Rightarrow> (Inr out', w'')))"
  unfolding multiUpscale_def
  by (subst for_loop.simps)
     (auto simp: for_loop.simps [of 1 2] for_loop.simps [of 2 2] split: prod.splits sum.splits)

lemma small_image_counted:
  "rgba_image \<lparr>mem = [[10, 20, 30, 255]], sess = 0\<rparr> (ndarray_new 0 (1, 1, 4))"
  by (simp add: rgba_image_def ndarray_new_def)

text \<open>
  With the session whose second call only fails, the pass over a \<open>1 \<times> 1\<close> image returns
  with the record clear, and \<^verbatim>\<open>multiUpscale\<close> with two passes is aborted in its second
  pass with the record set.
\<close>

theorem missing_result_aborts_pass_witness:
  "rgba_image \<lparr>mem = [[10, 20, 30, 255]], sess = 0\<rparr> (ndarray_new 0 (1, 1, 4)) \<and>
   (\<exists>out w' v. upscaleFrame second_call_fails (ndarray_new 0 (1, 1, 4))
                  \<lparr>mem = [[10, 20, 30, 255]], sess = 0\<rparr> = (Inr out, w') \<and>
                upscaleFrame (recording second_call_fails) (ndarray_new 0 (1, 1, 4))
                  \<lparr>mem = [[10, 20, 30, 255]], sess = (0, False)\<rparr> = (Inr out, v) \<and>
                \<not> snd (sess v)) \<and>
   (\<exists>w' v. multiUpscale second_call_fails (ndarray_new 0 (1, 1, 4)) 2
              \<lparr>mem = [[10, 20, 30, 255]], sess = 0\<rparr> = (Inl TypeError, w') \<and>
            multiUpscale (recording second_call_fails) (ndarray_new 0 (1, 1, 4)) 2
              \<lparr>mem = [[10, 20, 30, 255]], sess = (0, False)\<rparr> = (Inl TypeError, v) \<and>
            snd (sess v))"
proof -
  let ?w = "\<lparr>mem = [[10, 20, 30, 255]], sess = 0\<rparr> :: int world"
  let ?wr = "\<lparr>mem = [[10, 20, 30, 255]], sess = (0, False)\<rparr> :: (int \<times> bool) world"
  let ?img = "ndarray_new 0 (1, 1, 4)"
  note th = missing_result_aborts_pass [where run = second_call_fails and N = 2 and outArr = ?img,
      OF small_image_counted, THEN conjunct2]
  have wr: "\<lparr>mem = mem ?w, sess = (sess ?w, False)\<rparr> = ?wr" by simp
  have one: "nChunks (shape0 ?img) = 1" "nChunks (shape1 ?img) = 1"
    by (simp_all add: ndarray_new_def grid_1)
  obtain x s' where c1: "second_call_fails (sess ?w) (tile_chunk (mem ?w ! buf ?img) ?img 0 0) = (x, s')"
    and x: "\<not> no_result x" and s': "s' = 1"
    by (simp add: second_call_fails_def no_result_def)
  from single_tile_pass(2) [where run = second_call_fails, OF small_image_counted one c1 x]
  obtain out w1 where p1: "upscaleFrame second_call_fails ?img ?w = (Inr out, w1)"
    and s1: "sess w1 = 1"
    unfolding s' by blast
  note f = upscaleFrame_result(1,2) [OF small_image_counted tile_establishes_trivial p1]
  have one': "nChunks (shape0 out) = 1" "nChunks (shape1 out) = 1"
    unfolding f(1) by (simp_all add: ndarray_new_def nChunks_def CHUNK_SIZE_def)
  obtain y s'' where c2: "second_call_fails (sess w1) (tile_chunk (mem w1 ! buf out) out 0 0) = (y, s'')"
    and y: "no_result y"
    unfolding s1 by (simp add: second_call_fails_def no_result_def)
  from single_tile_pass(1) [where run = second_call_fails, OF f(2) one' c2 y]
  obtain w2 where p2: "upscaleFrame second_call_fails out w1 = (Inl TypeError, w2)"
    by blast
  have m: "multiUpscale second_call_fails ?img 2 ?w = (Inl TypeError, w2)"
    by (simp add: multiUpscale_twice p1 p2)
  obtain r v where rp: "upscaleFrame (recording second_call_fails) ?img ?wr = (r, v)"
    by (cases "upscaleFrame (recording second_call_fails) ?img ?wr") auto
  have 1: "r = Inr out \<and> \<not> snd (sess v)"
    using th [THEN conjunct1] unfolding wr rp p1 by (cases r) simp_all
  obtain r' v' where rm: "multiUpscale (recording second_call_fails) ?img 2 ?wr = (r', v')"
    by (cases "multiUpscale (recording second_call_fails) ?img 2 ?wr") auto
  have 2: "r' = Inl TypeError \<and> snd (sess v')"
    using th [THEN conjunct2] unfolding wr rm m by (cases r') simp_all
  show ?thesis
    using small_image_counted p1 m rp rm 1 2 by blast
qed

text \<open>
  C4 as it is stated fails: the session that returns a buffer of shape \<open>(1, 1, 4)\<close> for
  the \<open>(1, 1, 4)\<close> chunk of a \<open>1 \<times> 1\<close> image, where \<open>(2, 2, 4)\<close> is expected, does not make
  the pass fail, and the buffer is stitched: its first pixel is at \<open>(0, 0)\<close> of the
  canvas, and the bytes read beyond its end are 0.
\<close>

theorem shape_not_validated_counterexample:
  "fst (upscaleFrame misshapen_session (ndarray_new 0 (1, 1, 4)) \<lparr>mem = [[10, 20, 30, 255]], sess = ()\<rparr>)
     = Inr (ndarray_new 1 (2, 2, 4)) \<and>
   nd_get (snd (upscaleFrame misshapen_session (ndarray_new 0 (1, 1, 4))
                  \<lparr>mem = [[10, 20, 30, 255]], sess = ()\<rparr>))
          (ndarray_new 1 (2, 2, 4)) 0 0 0 = Some 7 \<and>
   nd_get (snd (upscaleFrame misshapen_session (ndarray_new 0 (1, 1, 4))
                  \<lparr>mem = [[10, 20, 30, 255]], sess = ()\<rparr>))
          (ndarray_new 1 (2, 2, 4)) 1 1 0 = Some 0"
proof -
  let ?w = "\<lparr>mem = [[10, 20, 30, 255]], sess = ()\<rparr> :: unit world"
  let ?img = "ndarray_new 0 (1, 1, 4)"
  let ?r = "([7, 7, 7, 9], (1, 1, 4)) :: tensor_val"
  let ?P = "\<lambda>px py c b. c \<noteq> (3::int) \<longrightarrow> b = stitched_value ?r (gridTile 1 1 0 0) px py c"
  have s: "shape0 ?img = 1" "shape1 ?img = 1" by (simp_all add: ndarray_new_def)
  have z: "i = 0" if "0 \<le> i" "i < 1" for i :: int using that by simp
  have P: "tile_establishes misshapen_session ?w ?img ?P"
    unfolding tile_establishes_def s grid_1 misshapen_session_def by (auto dest!: z)
  obtain out w' where r: "upscaleFrame misshapen_session ?img ?w = (Inr out, w')"
    using upscaleFrame_total [OF small_image, of misshapen_session] session_facts(2) by blast
  note f = upscaleFrame_result [OF small_image P r]
  have o: "out = ndarray_new 1 (2, 2, 4)" using f(1) by (simp add: s)
  have c: "covered (shape0 ?img) (shape1 ?img) 0 0" "covered (shape0 ?img) (shape1 ?img) 1 1"
    by (simp_all add: s covered_def grid_1)
  have t: "gridTile 1 1 0 0 = \<lparr>t_x = 0, t_y = 0, t_yStart = 0, t_inH = 1, t_outH = 2,
                              t_xStart = 0, t_inW = 1, t_outW = 2\<rparr>"
    by (simp add: gridTile_def tileOf_def grid_1 PAD_SIZE_def Let_def)
  have v: "stitched_value ?r (gridTile 1 1 0 0) 0 0 0 = 7"
    "stitched_value ?r (gridTile 1 1 0 0) 1 1 0 = 0"
    by (simp_all add: stitched_value_def t nd_index_def hi_def lo_def to_int32_def ndarray_new_def
        buf_get_def to_uint8_def)
  have fits: "canvas_fits (shape0 ?img) (shape1 ?img)"
    by (simp add: s canvas_fits_def)
  have "pixel w' out 0 0 0 = 7" "pixel w' out 1 1 0 = 0"
    using f(5) [OF fits, of 0 0 0] f(5) [OF fits, of 1 1 0] c v by (simp_all add: s)
  moreover have "nd_get w' out 0 0 0 = Some (pixel w' out 0 0 0)"
    "nd_get w' out 1 1 0 = Some (pixel w' out 1 1 0)"
    by (rule nd_get_image [OF f(2)]; simp add: o ndarray_new_def)+
  ultimately show ?thesis using r o by simp
qed

section \<open>The identity-doubling stub\<close>

lemma row_major_recompose:
  fixes a b c s1 :: int
  assumes "0 \<le> a" "0 \<le> b" "b < s1" "0 \<le> c" "c < 4"
  shows "((a * s1 + b) * 4 + c) div (s1 * 4) = a"
    and "((a * s1 + b) * 4 + c) div 4 mod s1 = b"
    and "((a * s1 + b) * 4 + c) mod 4 = c"
proof -
  let ?n = "(a * s1 + b) * 4 + c"
  have s1: "0 < s1" using assms by linarith
  have lt: "a < a + 1" by simp
  note bd = row_major_bounds [OF assms(1) lt assms(2-5)]
  note dc = row_major_decompose [OF bd s1]
  have "?n div (s1 * 4) = a \<and> ?n div 4 mod s1 = b \<and> ?n mod 4 = c"
    by (rule row_major_inj [OF dc(3,4) assms(2,3) dc(5,6) assms(4,5) dc(7)])
  then show "?n div (s1 * 4) = a" "?n div 4 mod s1 = b" "?n mod 4 = c" by simp_all
qed

lemma region_bytes_get:
  assumes "shape0 v = s0" "shape1 v = s1" "shape2 v = 4"
    and "0 \<le> a" "a < s0" "0 \<le> b" "b < s1" "0 \<le> c" "c < 4"
  shows "buf_get (region_bytes d v) ((a * s1 + b) * 4 + c)
       = Some (to_uint8 (buf_get d (nd_index v a b c)))"
proof -
  define n where "n = (a * s1 + b) * 4 + c"
  note bd = row_major_bounds [OF assms(4-9), folded n_def]
  note rc = row_major_recompose [OF assms(4,6-9), folded n_def]
  have m: "nat n < nat (s0 * s1 * 4)" "int (nat n) = n" using bd by simp_all
  have "region_bytes d v ! nat n = to_uint8 (buf_get d (nd_index v a b c))"
    unfolding region_bytes_def assms(1-3) using m(1) bd(1) by (simp add: m(2) rc)
  moreover have "int (length (region_bytes d v)) = s0 * s1 * 4"
    using bd by (simp add: region_bytes_def assms(1-3))
  ultimately have "buf_get (region_bytes d v) n = Some (to_uint8 (buf_get d (nd_index v a b c)))"
    using bd by (simp add: buf_get_def)
  then show ?thesis unfolding n_def .
qed

lemma identity_doubling_get:
  assumes "0 \<le> u" "u < 2 * w" "0 \<le> v" "v < 2 * h" "0 \<le> c" "c < 4"
  shows "buf_get (fst (identity_doubling (d, (w, h, 4)))) ((u * (2 * h) + v) * 4 + c)
       = Some (to_uint8 (buf_get d ((u div 2 * h + v div 2) * 4 + c)))"
    and "snd (identity_doubling (d, (w, h, 4))) = (2 * w, 2 * h, 4)"
proof -
  define n where "n = (u * (2 * h) + v) * 4 + c"
  define m where "m = (u div 2 * h + v div 2) * 4 + c"
  note bd = row_major_bounds [OF assms, folded n_def]
  note rc = row_major_recompose [OF assms(1,3-6), folded n_def]
  have k: "nat n < nat (2 * w * (2 * h) * 4)" "int (nat n) = n" using bd by simp_all
  have rc': "n div (8 * h) = u" using rc(1) by simp
  have m': "u div 2 * h * 4 + v div 2 * 4 + c = m" by (simp add: m_def algebra_simps)
  have "fst (identity_doubling (d, (w, h, 4))) ! nat n = to_uint8 (buf_get d m)"
    unfolding identity_doubling_def using k(1) bd(1) by (simp add: k(2) rc rc' Let_def m')
  moreover have "int (length (fst (identity_doubling (d, (w, h, 4))))) = 2 * w * (2 * h) * 4"
    using bd by (simp add: identity_doubling_def)
  ultimately have "buf_get (fst (identity_doubling (d, (w, h, 4)))) n = Some (to_uint8 (buf_get d m))"
    using bd by (simp add: buf_get_def)
  then show "buf_get (fst (identity_doubling (d, (w, h, 4)))) ((u * (2 * h) + v) * 4 + c)
       = Some (to_uint8 (buf_get d ((u div 2 * h + v div 2) * 4 + c)))"
    unfolding n_def m_def .
  show "snd (identity_doubling (d, (w, h, 4))) = (2 * w, 2 * h, 4)"
    by (simp add: identity_doubling_def)
qed

lemma stitched_doubling:
  assumes img: "rgba_image w img" and fits: "canvas_fits (shape0 img) (shape1 img)"
    and i: "0 \<le> i" "i < nChunks (shape1 img)" and j: "0 \<le> j" "j < nChunks (shape0 img)"
    and reg: "in_outputRegion (gridTile (shape0 img) (shape1 img) i j) px py"
    and c: "0 \<le> c" "c < 4"
  shows "stitched_value (identity_doubling (tile_chunk (mem w ! buf img) img i j))
           (gridTile (shape0 img) (shape1 img) i j) px py c
         = pixel w img (px div 2) (py div 2) c"
proof -
  let ?t = "gridTile (shape0 img) (shape1 img) i j"
  let ?d = "mem w ! buf img"
  let ?inSlice = "hi (lo img (t_xStart ?t) (t_yStart ?t) 0) (t_inW ?t) (t_inH ?t) 4"
  define u where "u = px - 2 * t_xStart ?t"
  define v where "v = py - 2 * t_yStart ?t"
  define inW where "inW = t_inW ?t"
  define inH where "inH = t_inH ?t"
  define rb where "rb = region_bytes ?d ?inSlice"
  have WH: "1 \<le> shape0 img" "1 \<le> shape1 img" and a: "buf img < length (mem w)"
    and rm: "stride0 img = shape1 img * 4" "stride1 img = 4" "stride2 img = 1" "offset img = 0"
    using img by (simp_all add: rgba_image_def)
  note b = tile_bounds [OF WH i j]
  note f = gridTile_fields(3,4) [OF WH i j]
  note pos = tile_input_positive [OF WH i j]
  note sm = tile_extents_small [OF WH i j]
  have r: "t_x ?t * 2 \<le> px" "px < t_x ?t * 2 + t_outW ?t" "t_y ?t * 2 \<le> py"
    "py < t_y ?t * 2 + t_outH ?t"
    using reg by (simp_all add: in_outputRegion_def)
  have half: "t_outW ?t div 2 * 2 = t_outW ?t" "t_outH ?t div 2 * 2 = t_outH ?t"
    unfolding f by simp_all
  have ub: "0 \<le> u" "u < 2 * inW" "0 \<le> v" "v < 2 * inH"
    unfolding u_def v_def inW_def inH_def using b(2,5,7,10) r half by linarith+
  have hb: "0 \<le> u div 2" "u div 2 < inW" "0 \<le> v div 2" "v div 2 < inH"
    using ub by simp_all
  have tc: "tile_chunk ?d img i j = (rb, (inW, inH, 4))"
    by (simp add: tile_chunk_eq rb_def inW_def inH_def)
  have idx: "nd_index (hi (lo (ndarray_new 0 (2 * inW, 2 * inH, 4))
                            ((t_x ?t - t_xStart ?t) * 2) ((t_y ?t - t_yStart ?t) * 2) 0)
                        (t_outW ?t) (t_outH ?t) 4)
                      (px - t_x ?t * 2) (py - t_y ?t * 2) c
             = (u * (2 * inH) + v) * 4 + c"
  proof -
    let ?c = "ndarray_new 0 (2 * inW, 2 * inH, 4)"
    define X where "X = (t_x ?t - t_xStart ?t) * 2"
    define Y where "Y = (t_y ?t - t_yStart ?t) * 2"
    have X: "0 \<le> X" "X \<le> 64" and Y: "0 \<le> Y" "Y \<le> 64"
      unfolding X_def Y_def using b(2,3,7,8) by simp_all
    have ih: "1 \<le> inH" "inH \<le> 1088" unfolding inH_def using pos(2) sm(2) by simp_all
    have sc: "shape1 ?c = 2 * inH" by (simp add: ndarray_new_def)
    define M where "M = X * (2 * inH)"
    define K where "K = 2 * inH"
    have K: "0 \<le> K" "K \<le> 2176" unfolding K_def using ih by simp_all
    have "X * K \<le> 64 * K" using X K by (intro mult_right_mono) simp_all
    then have "X * K \<le> 139264" using K by linarith
    then have "M \<le> 139264" unfolding M_def K_def .
    then have "(M + Y) * 4 < 2147483648" using Y by simp
    then have fit: "(X * shape1 ?c + Y) * 4 < 2147483648"
      unfolding sc M_def .
    have "nd_index (hi (lo ?c X Y 0) (t_outW ?t) (t_outH ?t) 4) (px - t_x ?t * 2) (py - t_y ?t * 2) c
        = ((X + (px - t_x ?t * 2)) * shape1 ?c + (Y + (py - t_y ?t * 2))) * 4 + c"
      by (rule nd_index_row_major [OF _ _ _ _ X(1) Y(1) _ fit])
         (use ih in \<open>simp_all add: ndarray_new_def\<close>)
    then show ?thesis
      unfolding sc X_def Y_def u_def v_def by (simp add: algebra_simps)
  qed
  have ip: "0 \<le> t_inW ?t" "t_inW ?t < 2147483648" "0 \<le> t_inH ?t" "t_inH ?t < 2147483648"
    using pos sm(1,2) by simp_all
  have sh: "shape0 ?inSlice = inW" "shape1 ?inSlice = inH" "shape2 ?inSlice = 4"
    unfolding inW_def inH_def by (rule hi_shape [OF ip])+
  have h: "u div 2 = px div 2 - t_xStart ?t" "v div 2 = py div 2 - t_yStart ?t"
    unfolding u_def v_def by simp_all
  have src: "nd_index ?inSlice (u div 2) (v div 2) c = nd_index img (px div 2) (py div 2) c"
  proof -
    define A where "A = shape0 img * shape1 img"
    have xs: "t_xStart ?t < shape0 img" "t_yStart ?t < shape1 img"
      using b(4,9) pos by linarith+
    have li: "(t_xStart ?t * shape1 img + t_yStart ?t) * 4 + 0 < A * 4"
      unfolding A_def by (rule row_major_bounds(2) [OF b(1) xs(1) b(6) xs(2)]) simp_all
    have A0: "0 \<le> A" unfolding A_def using WH by simp
    have "A * 16 \<le> 2147483648"
      using fits unfolding canvas_fits_def A_def by simp
    then have fi: "(t_xStart ?t * shape1 img + t_yStart ?t) * 4 < 2147483648"
      using li A0 by linarith
    have "nd_index ?inSlice (u div 2) (v div 2) c
        = ((t_xStart ?t + u div 2) * shape1 img + (t_yStart ?t + v div 2)) * 4 + c"
      by (rule nd_index_row_major [OF rm b(1,6) WH(2) fi])
    then show ?thesis
      unfolding h by (simp add: nd_index_def rm algebra_simps)
  qed
  have 1: "buf_get (fst (identity_doubling (rb, (inW, inH, 4)))) ((u * (2 * inH) + v) * 4 + c)
           = Some (to_uint8 (buf_get rb ((u div 2 * inH + v div 2) * 4 + c)))"
    by (rule identity_doubling_get(1) [OF ub c])
  have 2: "buf_get rb ((u div 2 * inH + v div 2) * 4 + c)
           = Some (to_uint8 (buf_get ?d (nd_index ?inSlice (u div 2) (v div 2) c)))"
    unfolding rb_def by (rule region_bytes_get [OF sh hb c])
  have 3: "pixel w img (px div 2) (py div 2) c
           = to_uint8 (buf_get ?d (nd_index img (px div 2) (py div 2) c))"
    using a by (simp add: pixel_def nd_get_def buffer_at_def)
  obtain cd where id: "identity_doubling (rb, (inW, inH, 4)) = (cd, (2 * inW, 2 * inH, 4))"
    using identity_doubling_get(2) [where d = rb and w = inW and h = inH, OF ub c]
    by (cases "identity_doubling (rb, (inW, inH, 4))") auto
  have "stitched_value (identity_doubling (rb, (inW, inH, 4))) ?t px py c
        = to_uint8 (buf_get cd ((u * (2 * inH) + v) * 4 + c))"
    unfolding id stitched_value_def prod.case idx ..
  also have "\<dots> = to_uint8 (buf_get ?d (nd_index img (px div 2) (py div 2) c))"
    using 1 [unfolded id fst_conv] 2 src by (simp add: to_uint8_def)
  finally show ?thesis unfolding tc 3 .
qed

lemma doubling_establishes:
  assumes img: "rgba_image w img" and fits: "canvas_fits (shape0 img) (shape1 img)"
    and dbl: "\<And>s t. fst (run s t) = Inr (Some (identity_doubling t))"
  shows "tile_establishes run w img (\<lambda>px py c b. b = pixel w img (px div 2) (py div 2) c)"
  unfolding tile_establishes_def
proof (intro allI impI, elim conjE)
  fix i j s0 r s1 px py and c :: int
  assume t: "0 \<le> i" "i < nChunks (shape1 img)" "0 \<le> j" "j < nChunks (shape0 img)"
    and run: "run s0 (tile_chunk (mem w ! buf img) img i j) = (Inr (Some r), s1)"
    and reg: "in_outputRegion (gridTile (shape0 img) (shape1 img) i j) px py"
    and c: "0 \<le> c" "c < 4"
  have "r = identity_doubling (tile_chunk (mem w ! buf img) img i j)"
    using dbl [of s0 "tile_chunk (mem w ! buf img) img i j"] run by simp
  then show "(if c = 3 then pixel w img (px div 2) (py div 2) 3
              else stitched_value r (gridTile (shape0 img) (shape1 img) i j) px py c)
             = pixel w img (px div 2) (py div 2) c"
    using stitched_doubling [OF img fits t reg c] by simp
qed

text \<open>
  On the part of the canvas that the tiles are written to, a pass with the
  identity-doubling stub replicates every pixel of the source, all channels, when the
  canvas fits.
\<close>

lemma doubling_fidelity_covered:
  assumes img: "rgba_image w img" and fits: "canvas_fits (shape0 img) (shape1 img)"
    and dbl: "\<And>s t. fst (run s t) = Inr (Some (identity_doubling t))"
    and res: "upscaleFrame run img w = (Inr out, w')"
    and cov: "covered (shape0 img) (shape1 img) x y" and c: "0 \<le> c" "c < 4"
  shows "nd_get w' out x y c = nd_get w img (x div 2) (y div 2) c"
    and "nd_get w img (x div 2) (y div 2) c \<noteq> None"
proof -
  have WH: "1 \<le> shape0 img" "1 \<le> shape1 img"
    using img by (simp_all add: rgba_image_def)
  note p = covered_in_canvas [OF WH cov]
  note r = upscaleFrame_result [OF img doubling_establishes [OF img fits dbl] res]
  have o: "shape0 out = shape0 img * 2" "shape1 out = shape1 img * 2"
    by (simp_all add: r(1) ndarray_new_def)
  have "pixel w' out x y c = pixel w img (x div 2) (y div 2) c"
    using r(5) [OF fits p c] cov by simp
  moreover have "nd_get w' out x y c = Some (pixel w' out x y c)"
    using p c by (intro nd_get_image [OF r(2)]) (simp_all add: o)
  moreover have g: "nd_get w img (x div 2) (y div 2) c = Some (pixel w img (x div 2) (y div 2) c)"
    using p c by (intro nd_get_image [OF img]) simp_all
  ultimately show "nd_get w' out x y c = nd_get w img (x div 2) (y div 2) c" by simp
  show "nd_get w img (x div 2) (y div 2) c \<noteq> None" using g by simp
qed

text \<open>
  C6, at the \<open>1025 \<times> 1\<close> image whose bytes are all 255, with the identity-doubling stub:
  the pass returns the \<open>2050 \<times> 2\<close> canvas, and its red channel at \<open>(2049, 1)\<close>, in the
  strip that no tile is written to, is 0, while the red channel of the source at
  \<open>(1024, 0)\<close> is 255.
\<close>

theorem doubling_fidelity_gap_1025:
  "fst (upscaleFrame doubling_session (ndarray_new 0 (1025, 1, 4))
          \<lparr>mem = [replicate 4100 255], sess = ()\<rparr>)
     = Inr (ndarray_new 1 (2050, 2, 4)) \<and>
   nd_get (snd (upscaleFrame doubling_session (ndarray_new 0 (1025, 1, 4))
                  \<lparr>mem = [replicate 4100 255], sess = ()\<rparr>))
          (ndarray_new 1 (2050, 2, 4)) 2049 1 0 = Some 0 \<and>
   nd_get \<lparr>mem = [replicate 4100 255], sess = ()\<rparr> (ndarray_new 0 (1025, 1, 4))
          (2049 div 2) (1 div 2) 0 = Some 255"
proof -
  let ?w = "\<lparr>mem = [replicate 4100 255], sess = ()\<rparr> :: unit world"
  let ?img = "ndarray_new 0 (1025, 1, 4)"
  have s: "shape0 ?img = 1025" "shape1 ?img = 1" by (simp_all add: ndarray_new_def)
  obtain out w' where r: "upscaleFrame doubling_session ?img ?w = (Inr out, w')"
    using upscaleFrame_total [OF wide_image, of doubling_session] session_facts(1) by blast
  note f = upscaleFrame_result [OF wide_image tile_establishes_trivial r]
  have o: "out = ndarray_new 1 (2050, 2, 4)" using f(1) by (simp add: s)
  have "\<not> covered (shape0 ?img) (shape1 ?img) 2049 1"
    by (simp add: s covered_def grid_1025)
  moreover have "canvas_fits (shape0 ?img) (shape1 ?img)"
    by (simp add: s canvas_fits_def)
  ultimately have "pixel w' out 2049 1 0 = 0"
    using f(5) [of 2049 1 0] by (simp add: s)
  moreover have "nd_get w' out 2049 1 0 = Some (pixel w' out 2049 1 0)"
    by (rule nd_get_image [OF f(2)]) (simp_all add: o ndarray_new_def)
  ultimately have 2: "nd_get w' out 2049 1 0 = Some 0" by simp
  have 3: "nd_get ?w ?img (2049 div 2) (1 div 2) 0 = Some 255"
    by (simp add: nd_get_def nd_index_def ndarray_new_def buffer_at_def buf_get_def)
  show ?thesis using 2 3 r o by simp
qed

section \<open>The output regions of the grid\<close>

text \<open>
  The output regions of the tiles of the grid are pairwise disjoint, and together they
  are the part \<open>[0, 2 * nChunksW * chunkW) \<times> [0, 2 * nChunksH * chunkH)\<close> of the
  canvas.
\<close>

lemma strip_unique:
  fixes m m' c p :: int
  assumes "0 < c" "m * c * 2 \<le> p" "p < (m + 1) * c * 2" "m' * c * 2 \<le> p" "p < (m' + 1) * c * 2"
  shows "m = m'"
proof (rule ccontr)
  assume "m \<noteq> m'"
  then consider "m + 1 \<le> m'" | "m' + 1 \<le> m" by linarith
  then show False
  proof cases
    case 1
    then have "(m + 1) * c \<le> m' * c" using assms(1) by (intro mult_right_mono) simp_all
    then show False using assms(3,4) by linarith
  next
    case 2
    then have "(m' + 1) * c \<le> m * c" using assms(1) by (intro mult_right_mono) simp_all
    then show False using assms(2,5) by linarith
  qed
qed

lemma strip_exists:
  fixes n c p :: int
  assumes "0 < c" "0 \<le> p" "p < 2 * (n * c)"
  shows "\<exists>m. 0 \<le> m \<and> m < n \<and> m * c * 2 \<le> p \<and> p < (m + 1) * c * 2"
proof (intro exI conjI)
  let ?m = "p div (c * 2)"
  have c2: "0 < c * 2" using assms(1) by simp
  show "0 \<le> ?m" using assms(2) c2 by (simp add: pos_imp_zdiv_nonneg_iff)
  have dm: "?m * (c * 2) + p mod (c * 2) = p" by (rule div_mult_mod_eq)
  have md: "0 \<le> p mod (c * 2)" "p mod (c * 2) < c * 2" using c2 by simp_all
  show lo: "?m * c * 2 \<le> p" using dm md by (simp add: algebra_simps)
  show "p < (?m + 1) * c * 2" using dm md by (simp add: algebra_simps)
  show "?m < n"
  proof (rule ccontr)
    assume "\<not> ?m < n"
    then have "n * (c * 2) \<le> ?m * (c * 2)" using c2 by (intro mult_right_mono) simp_all
    then show False using lo assms(3) by (simp add: algebra_simps)
  qed
qed

lemma outputRegions_disjoint:
  assumes "1 \<le> W" and "1 \<le> H"
    and "0 \<le> i" "i < nChunks H" "0 \<le> j" "j < nChunks W"
    and "0 \<le> i'" "i' < nChunks H" "0 \<le> j'" "j' < nChunks W"
    and "in_outputRegion (gridTile W H i j) px py" "in_outputRegion (gridTile W H i' j') px py"
  shows "i = i' \<and> j = j'"
proof -
  note a = assms(11) [unfolded in_outputRegion_grid [OF assms(1-6)]]
  note b = assms(12) [unfolded in_outputRegion_grid [OF assms(1,2,7-10)]]
  have cW: "0 < chunkLen W" and cH: "0 < chunkLen H"
    using chunkLen_pos [OF assms(1)] chunkLen_pos [OF assms(2)] by simp_all
  have "j = j'" using a b by (intro strip_unique [OF cW, of j px j']) simp_all
  moreover have "i = i'" using a b by (intro strip_unique [OF cH, of i py i']) simp_all
  ultimately show ?thesis by simp
qed

lemma outputRegions_cover:
  assumes "1 \<le> W" and "1 \<le> H"
  shows "(\<exists>i j. 0 \<le> i \<and> i < nChunks H \<and> 0 \<le> j \<and> j < nChunks W \<and>
                in_outputRegion (gridTile W H i j) px py)
         = covered W H px py"
proof
  assume "\<exists>i j. 0 \<le> i \<and> i < nChunks H \<and> 0 \<le> j \<and> j < nChunks W \<and>
                in_outputRegion (gridTile W H i j) px py"
  then obtain i j where t: "0 \<le> i" "i < nChunks H" "0 \<le> j" "j < nChunks W"
    and r: "in_outputRegion (gridTile W H i j) px py"
    by blast
  note a = r [unfolded in_outputRegion_grid [OF assms t]]
  have cW: "0 < chunkLen W" and cH: "0 < chunkLen H"
    using chunkLen_pos [OF assms(1)] chunkLen_pos [OF assms(2)] by simp_all
  have "(j + 1) * chunkLen W \<le> nChunks W * chunkLen W"
    using t(4) cW by (intro mult_right_mono) simp_all
  moreover have "(i + 1) * chunkLen H \<le> nChunks H * chunkLen H"
    using t(2) cH by (intro mult_right_mono) simp_all
  moreover have "0 \<le> j * chunkLen W" "0 \<le> i * chunkLen H"
    using t(1,3) cW cH by simp_all
  ultimately show "covered W H px py"
    unfolding covered_def using a by linarith
next
  assume c: "covered W H px py"
  have cW: "0 < chunkLen W" and cH: "0 < chunkLen H"
    using chunkLen_pos [OF assms(1)] chunkLen_pos [OF assms(2)] by simp_all
  obtain j where j: "0 \<le> j" "j < nChunks W" "j * chunkLen W * 2 \<le> px"
    "px < (j + 1) * chunkLen W * 2"
    using strip_exists [OF cW, of px "nChunks W"] c unfolding covered_def by blast
  obtain i where i: "0 \<le> i" "i < nChunks H" "i * chunkLen H * 2 \<le> py"
    "py < (i + 1) * chunkLen H * 2"
    using strip_exists [OF cH, of py "nChunks H"] c unfolding covered_def by blast
  have "in_outputRegion (gridTile W H i j) px py"
    unfolding in_outputRegion_grid [OF assms i(1,2) j(1,2)] using i j by simp
  then show "\<exists>i j. 0 \<le> i \<and> i < nChunks H \<and> 0 \<le> j \<and> j < nChunks W \<and>
                in_outputRegion (gridTile W H i j) px py"
    using i(1,2) j(1,2) by blast
qed

end
